theory Spec2Isabelle
  imports Complex_Main "HOL-Library.Sublist"
begin

section \<open>JavaScript values used by the engines\<close>

text \<open>
  Strings are lists of characters; the model is exact for ASCII text (one \<open>char\<close> per
  UTF-16 code unit). JavaScript numbers that the code only ever uses as array or string
  offsets are integers (\<open>int\<close> where the source subtracts or may go negative, \<open>nat\<close> where
  the value comes out of \<open>indexOf\<close> or \<open>length\<close>); measured and averaged quantities are
  rationals.
\<close>

text \<open>\<open>Array.prototype.slice(start, stop)\<close> for integer arguments: a negative argument counts
  from the end, both are clamped to the array, an empty range gives the empty array.\<close>

definition slice :: "'a list \<Rightarrow> int \<Rightarrow> int \<Rightarrow> 'a list" where
  "slice xs start stop =
     (let n = int (length xs);
          s = (if start < 0 then max (n + start) 0 else min start n);
          e = (if stop < 0 then max (n + stop) 0 else min stop n)
      in take (nat (e - s)) (drop (nat s) xs))"

subsection \<open>Strings\<close>

text \<open>\<open>toLowerCase\<close> on ASCII: each of the letters \<open>A\<close> to \<open>Z\<close> becomes its small letter,
  every other character stays.\<close>

definition toLower_char :: "char \<Rightarrow> char" where
  "toLower_char c =
     (case map_of (zip ''ABCDEFGHIJKLMNOPQRSTUVWXYZ'' ''abcdefghijklmnopqrstuvwxyz'') c of
        None \<Rightarrow> c
      | Some d \<Rightarrow> d)"

definition toLowerCase :: "string \<Rightarrow> string" where
  "toLowerCase s = map toLower_char s"

text \<open>\<open>s.indexOf(sub)\<close>: the first offset at which \<open>sub\<close> starts in \<open>s\<close>; \<open>None\<close> is \<open>-1\<close>.
  The empty string is found at offset 0.\<close>

fun indexOf :: "string \<Rightarrow> string \<Rightarrow> nat option" where
  "indexOf [] sub = (if sub = [] then Some 0 else None)"
| "indexOf (c # cs) sub =
     (if prefix sub (c # cs) then Some 0 else map_option Suc (indexOf cs sub))"

text \<open>The text \<open>s\<close> reads \<open>sub\<close> from offset \<open>i\<close> on.\<close>

definition reads_at :: "string \<Rightarrow> string \<Rightarrow> nat \<Rightarrow> bool" where
  "reads_at s sub i = prefix sub (drop i s)"

definition js_includes :: "string \<Rightarrow> string \<Rightarrow> bool" where
  "js_includes s sub = (indexOf s sub \<noteq> None)"

definition startsWith :: "string \<Rightarrow> string \<Rightarrow> bool" where
  "startsWith s sub = prefix sub s"

text \<open>\<open>s.substring(a, b)\<close> for integer arguments: each is clamped to \<open>[0, length]\<close> and the
  smaller is the start; \<open>s.substring(a)\<close> runs to the end.\<close>

definition substring :: "string \<Rightarrow> int \<Rightarrow> int \<Rightarrow> string" where
  "substring s a b =
     (let n = int (length s);
          a' = max 0 (min a n);
          b' = max 0 (min b n)
      in take (nat (max a' b' - min a' b')) (drop (nat (min a' b')) s))"

definition substring_from :: "string \<Rightarrow> int \<Rightarrow> string" where
  "substring_from s a = substring s a (int (length s))"

text \<open>White space as \<open>trim\<close> and the white-space class of regular expressions see it, within
  ASCII: tab, line feed,
  vertical tab, form feed, carriage return, space.\<close>

definition is_space :: "char \<Rightarrow> bool" where
  "is_space c = (let n = (of_char c :: nat) in (9 \<le> n \<and> n \<le> 13) \<or> n = 32)"

definition trim :: "string \<Rightarrow> string" where
  "trim s = rev (dropWhile is_space (rev (dropWhile is_space s)))"

text \<open>\<open>s.split(sep)\<close> for a string separator: the pieces between the non-overlapping
  occurrences of \<open>sep\<close>, found left to right; with the empty separator, the characters.\<close>

fun split_at :: "string \<Rightarrow> string \<Rightarrow> string \<Rightarrow> string list" where
  "split_at [] piece s = map (\<lambda>c. [c]) s"
| "split_at (x # xs) piece [] = [rev piece]"
| "split_at (x # xs) piece (c # cs) =
     (if prefix (x # xs) (c # cs)
      then rev piece # split_at (x # xs) [] (drop (length xs) cs)
      else split_at (x # xs) (c # piece) cs)"

definition js_split :: "string \<Rightarrow> string \<Rightarrow> string list" where
  "js_split s sep = split_at sep [] s"

section \<open>parallel-engine.ts: the bounded-concurrency scheduler\<close>

datatype priority = High | Medium | Low

text \<open>
  JavaScript values as far as the scheduler tells them apart: \<open>undefined\<close>, \<open>null\<close>, a
  string, and any other value, of which only the truthiness matters to \<open>||\<close> (the number
  tells such values apart). \<open>a || b\<close> is \<open>a\<close> when \<open>a\<close> is truthy and \<open>b\<close> otherwise; the
  empty string is falsy.
\<close>

datatype js_value = JUndefined | JNull | JString string | JOther bool nat

fun truthy :: "js_value \<Rightarrow> bool" where
  "truthy JUndefined = False"
| "truthy JNull = False"
| "truthy (JString s) = (s \<noteq> [])"
| "truthy (JOther t k) = t"

definition js_or :: "js_value \<Rightarrow> js_value \<Rightarrow> js_value" where
  "js_or a b = (if truthy a then a else b)"

text \<open>Prompt arguments (\<open>any[]\<close> in the source) are opaque to the scheduler; strings stand
  for them. A result's \<open>data\<close> and \<open>error\<close> are JavaScript values (\<open>error\<close> is \<open>undefined\<close> when
  the property is not set).\<close>

record AITask =
  promptKey :: string
  args :: "string list"
  model :: string
  priority :: priority
  task_id :: string

record AIBatchResult =
  result_id :: string
  success :: bool
  data :: js_value
  error :: js_value
  duration :: rat

text \<open>
  What a \<open>throw\<close> can carry: \<open>null\<close>, \<open>undefined\<close>, or any other value; of the latter the
  code only reads the property \<open>message\<close>, and the argument is the value that read gives
  (\<open>undefined\<close> when there is no such property).
\<close>

datatype js_thrown = ThrownNull | ThrownUndefined | ThrownValue js_value

text \<open>
  The collaborator \<open>callAI\<close> is opaque: the environment says, for the \<open>n\<close>-th remote call
  of a run and the task it is made for, whether the call resolves (to some value) or
  throws, and how long the scheduler measured it to take. Reading \<open>message\<close> of \<open>null\<close> or of
  \<open>undefined\<close> raises a \<open>TypeError\<close> whose message is the JavaScript engine's own text;
  the environment gives that text too.
\<close>

datatype call_outcome = Resolves js_value | Rejects js_thrown

record call_env =
  callAI :: "nat \<Rightarrow> AITask \<Rightarrow> call_outcome"
  elapsed :: "nat \<Rightarrow> AITask \<Rightarrow> rat"
  typeError_message :: "js_thrown \<Rightarrow> string"

text \<open>
  \<open>executeTask\<close>: the promise it returns is fulfilled (\<open>Inr\<close>) with a result both when the
  call resolves and when the \<open>catch\<close> block runs to its end; it is rejected (\<open>Inl\<close>) when
  the \<open>catch\<close> block itself raises, which it does at \<open>error.message\<close> when the thrown value
  is \<open>null\<close> or \<open>undefined\<close>; the reason is then the engine's \<open>TypeError\<close>.
\<close>

definition executeTask :: "call_env \<Rightarrow> nat \<Rightarrow> AITask \<Rightarrow> js_thrown + AIBatchResult" where
  "executeTask env n task =
     (case callAI env n task of
        Resolves r \<Rightarrow>
          Inr \<lparr>result_id = task_id task, success = True, data = r, error = JUndefined,
               duration = elapsed env n task\<rparr>
      | Rejects thrown \<Rightarrow>
          (case thrown of
             ThrownValue message \<Rightarrow>
               Inr \<lparr>result_id = task_id task, success = False, data = JNull,
                    error = js_or message (JString ''AI call failed''),
                    duration = elapsed env n task\<rparr>
           | _ \<Rightarrow> Inl (ThrownValue (JString (typeError_message env thrown)))))"

text \<open>\<open>result.reason?.message\<close>: optional chaining gives \<open>undefined\<close> on a nullish reason.\<close>

definition reason_message :: "js_thrown \<Rightarrow> js_value" where
  "reason_message r = (case r of ThrownValue message \<Rightarrow> message | _ \<Rightarrow> JUndefined)"

text \<open>The body of \<open>chunkResults.map\<close> in \<open>executeParallelBatch\<close>, for the task at the same
  index of the chunk.\<close>

definition processResult :: "AITask \<Rightarrow> js_thrown + AIBatchResult \<Rightarrow> AIBatchResult" where
  "processResult task settled =
     (case settled of
        Inr v \<Rightarrow> v
      | Inl reason \<Rightarrow>
          \<lparr>result_id = task_id task, success = False, data = JNull,
           error = js_or (reason_message reason) (JString ''Unknown error''), duration = 0\<rparr>)"

text \<open>
  \<open>chunkTasks\<close>: the \<open>for\<close> loop advances \<open>i\<close> by \<open>chunkSize\<close>, whatever its sign. With a
  chunk size that is not positive the loop never ends on a non-empty batch, so the loop
  is a partial function: \<open>None\<close> is "does not return".
\<close>

partial_function (option) chunk_loop ::
  "AITask list \<Rightarrow> int \<Rightarrow> int \<Rightarrow> AITask list list \<Rightarrow> AITask list list option" where
  "chunk_loop tasks chunkSize i chunks =
     (if i < int (length tasks)
      then chunk_loop tasks chunkSize (i + chunkSize) (chunks @ [slice tasks i (i + chunkSize)])
      else Some chunks)"

declare chunk_loop.simps [code]

definition chunkTasks :: "AITask list \<Rightarrow> int \<Rightarrow> AITask list list option" where
  "chunkTasks tasks chunkSize = chunk_loop tasks chunkSize 0 []"

text \<open>
  The scheduler's observable behaviour is recorded in a trace: a task is \<open>Dispatched\<close> when
  \<open>executeTask\<close> is called for it (the remote call starts synchronously inside), and
  \<open>Collected\<close> when \<open>Promise.allSettled\<close> has resolved and its result is read. The state
  also counts the remote calls made so far.
\<close>

datatype event = Dispatched AITask | Collected AITask

record sched_state =
  calls :: nat
  trace :: "event list"

definition run_chunk :: "call_env \<Rightarrow> nat \<Rightarrow> AITask list \<Rightarrow> AIBatchResult list" where
  "run_chunk env n chunk =
     map (\<lambda>(k, task). processResult task (executeTask env k task)) (enumerate n chunk)"

fun batch_loop ::
  "call_env \<Rightarrow> AITask list list \<Rightarrow> AIBatchResult list \<times> sched_state \<Rightarrow>
   AIBatchResult list \<times> sched_state" where
  "batch_loop env [] acc = acc"
| "batch_loop env (chunk # chunks) (allResults, st) =
     batch_loop env chunks
       (allResults @ run_chunk env (calls st) chunk,
        st\<lparr>calls := calls st + length chunk,
           trace := trace st @ map Dispatched chunk @ map Collected chunk\<rparr>)"

definition executeParallelBatch ::
  "call_env \<Rightarrow> int \<Rightarrow> AITask list \<Rightarrow> sched_state \<Rightarrow> (AIBatchResult list \<times> sched_state) option"
  where
  "executeParallelBatch env maxConcurrent tasks st =
     (case chunkTasks tasks maxConcurrent of
        None \<Rightarrow> None
      | Some chunks \<Rightarrow> Some (batch_loop env chunks ([], st)))"

definition executeGroup ::
  "call_env \<Rightarrow> int \<Rightarrow> AITask list \<Rightarrow> sched_state \<Rightarrow> (AIBatchResult list \<times> sched_state) option"
  where
  "executeGroup env maxConcurrent tasks st = executeParallelBatch env maxConcurrent tasks st"

text \<open>\<open>groupByPriority\<close>: a \<open>Map\<close> iterates in insertion order, so it is an association
  list; an empty group is not inserted.\<close>

definition groupByPriority :: "AITask list \<Rightarrow> (priority \<times> AITask list) list" where
  "groupByPriority tasks =
     concat (map (\<lambda>p. let filtered = filter (\<lambda>t. priority t = p) tasks
                       in if length filtered > 0 then [(p, filtered)] else [])
                 [High, Medium, Low])"

fun group_loop ::
  "call_env \<Rightarrow> int \<Rightarrow> (priority \<times> AITask list) list \<Rightarrow> AIBatchResult list \<times> sched_state \<Rightarrow>
   (AIBatchResult list \<times> sched_state) option" where
  "group_loop env maxConcurrent [] acc = Some acc"
| "group_loop env maxConcurrent ((p, groupTasks) # groups) (results, st) =
     (case executeGroup env maxConcurrent groupTasks st of
        None \<Rightarrow> None
      | Some (batchResults, st') \<Rightarrow>
          group_loop env maxConcurrent groups (results @ batchResults, st'))"

definition executeBatch ::
  "call_env \<Rightarrow> int \<Rightarrow> AITask list \<Rightarrow> sched_state \<Rightarrow> (AIBatchResult list \<times> sched_state) option"
  where
  "executeBatch env maxConcurrent tasks st =
     group_loop env maxConcurrent (groupByPriority tasks) ([], st)"

definition initial_state :: sched_state where
  "initial_state = \<lparr>calls = 0, trace = []\<rparr>"

text \<open>Reading the trace: the task of an event, the tasks dispatched and the tasks collected,
  in trace order; and the position of a priority in the \<open>priorities\<close> array of
  \<open>groupByPriority\<close>.\<close>

fun prio_rank :: "priority \<Rightarrow> nat" where
  "prio_rank High = 0"
| "prio_rank Medium = 1"
| "prio_rank Low = 2"

fun event_task :: "event \<Rightarrow> AITask" where
  "event_task (Dispatched t) = t"
| "event_task (Collected t) = t"

fun dispatched_tasks :: "event list \<Rightarrow> AITask list" where
  "dispatched_tasks [] = []"
| "dispatched_tasks (Dispatched t # es) = t # dispatched_tasks es"
| "dispatched_tasks (Collected t # es) = dispatched_tasks es"

fun collected_tasks :: "event list \<Rightarrow> AITask list" where
  "collected_tasks [] = []"
| "collected_tasks (Dispatched t # es) = collected_tasks es"
| "collected_tasks (Collected t # es) = t # collected_tasks es"

definition chunks_trace :: "AITask list list \<Rightarrow> event list" where
  "chunks_trace chunks = concat (map (\<lambda>c. map Dispatched c @ map Collected c) chunks)"

text \<open>A small batch and a collaborator that fails one of its tasks, for the examples.\<close>

definition task_a :: AITask where
  "task_a = \<lparr>promptKey = ''generate'', args = [''a''], model = ''gemini'', priority = High,
              task_id = ''generate-a''\<rparr>"

definition task_b :: AITask where
  "task_b = \<lparr>promptKey = ''generate'', args = [''b''], model = ''gemini'', priority = Low,
              task_id = ''generate-b''\<rparr>"

definition task_c :: AITask where
  "task_c = \<lparr>promptKey = ''generate'', args = [''c''], model = ''gemini'', priority = Medium,
              task_id = ''generate-c''\<rparr>"

text \<open>The text V8 gives to the \<open>TypeError\<close> for reading \<open>message\<close> of \<open>null\<close> or \<open>undefined\<close>
  (the character with code 39 is the single quotation mark).\<close>

definition v8_message :: "js_thrown \<Rightarrow> string" where
  "v8_message thrown =
     (case thrown of
        ThrownNull \<Rightarrow>
          ''Cannot read properties of null (reading '' @ [CHR 0x27] @ ''message'' @ [CHR 0x27] @ '')''
      | ThrownUndefined \<Rightarrow>
          ''Cannot read properties of undefined (reading '' @ [CHR 0x27] @ ''message''
          @ [CHR 0x27] @ '')''
      | ThrownValue message \<Rightarrow> [])"

definition example_env :: call_env where
  "example_env =
     \<lparr>callAI = (\<lambda>n task. if task_id task = ''generate-b''
                          then Rejects (ThrownValue (JString ''quota exceeded''))
                          else Resolves (JString ''text'')),
      elapsed = (\<lambda>n task. 7),
      typeError_message = v8_message\<rparr>"

text \<open>A collaborator whose promise rejects with \<open>null\<close>, on V8.\<close>

definition null_env :: call_env where
  "null_env =
     \<lparr>callAI = (\<lambda>n task. Rejects ThrownNull),
      elapsed = (\<lambda>n task. 7),
      typeError_message = v8_message\<rparr>"
section \<open>The performance tracker\<close>

record PerformanceMetrics =
  optimizationSpeed :: rat
  contentQualityScore :: rat
  internalLinkDensity :: rat
  semanticRichness :: rat
  aeoScore :: rat
  timestamp :: int

record OptimizationLog =
  log_id :: string
  url :: string
  log_title :: string
  log_timestamp :: int
  beforeScore :: rat
  afterScore :: rat
  improvements :: "string list"
  log_duration :: rat

text \<open>
  The tracker's two windows, and the two \<open>localStorage\<close> entries it writes
  (\<open>None\<close>: the key is absent).
\<close>

record tracker_state =
  metrics :: "PerformanceMetrics list"
  logs :: "OptimizationLog list"
  stored_metrics :: "PerformanceMetrics list option"
  stored_logs :: "OptimizationLog list option"



text \<open>
  \<open>saveToStorage\<close>: \<open>setItem\<close> may throw (quota, disabled storage); \<open>writable\<close> says for which
  key it succeeds. The first failure leaves the \<open>try\<close> block, the error is logged and
  swallowed.
\<close>

definition saveToStorage :: "(string \<Rightarrow> bool) \<Rightarrow> tracker_state \<Rightarrow> tracker_state" where
  "saveToStorage writable t =
     (if writable ''performanceMetrics''
      then (let t1 = t\<lparr>stored_metrics := Some (metrics t)\<rparr>
            in if writable ''optimizationLogs'' then t1\<lparr>stored_logs := Some (logs t)\<rparr> else t1)
      else t)"













section \<open>aeo-optimizer.ts: the direct answer\<close>

datatype snippet_type = Featured | Paragraph | ListSnippet | TableSnippet | Faq

record AEOSnippet =
  snippet_type :: snippet_type
  snippet_content :: string
  snippet_score :: nat
  optimization :: string

text \<open>\<open>para.replace(/<[^>]+>/g, '')\<close>: a tag is \<open><\<close>, then the longest non-empty run of
  characters other than \<open>>\<close>, then \<open>>\<close>; where no such match starts, the character stays.\<close>

function stripTags :: "string \<Rightarrow> string" where
  "stripTags [] = []"
| "stripTags (c # cs) =
     (if c = CHR ''<''
      then (let body = takeWhile (\<lambda>d. d \<noteq> CHR ''>'') cs;
                rest = dropWhile (\<lambda>d. d \<noteq> CHR ''>'') cs
            in if body \<noteq> [] \<and> rest \<noteq> [] then stripTags (tl rest) else c # stripTags cs)
      else c # stripTags cs)"
  by pat_completeness auto
termination
proof (relation "measure length")
  show "wf (measure length)" by simp
next
  fix c :: char and cs body rest :: string
  assume "rest = dropWhile (\<lambda>d. d \<noteq> CHR ''>'') cs"
  then have "length (tl rest) \<le> length cs"
    using length_dropWhile_le[of "\<lambda>d. d \<noteq> CHR ''>''" cs] by simp
  then show "(tl rest, c # cs) \<in> measure length" by simp
qed simp_all

text \<open>
  \<open>/^(.*?is|are|means|refers to|can be defined as)/i\<close>: the anchor stands before the group,
  the alternatives inside it. The first alternative matches when \<open>is\<close> occurs on the first
  line (\<open>.\<close> does not cross a line terminator); the others when the text starts with the
  phrase. The flag \<open>i\<close> ignores case.
\<close>

definition is_line_terminator :: "char \<Rightarrow> bool" where
  "is_line_terminator c = (let n = (of_char c :: nat) in n = 10 \<or> n = 13)"

definition hasDefinitionPattern :: "string \<Rightarrow> bool" where
  "hasDefinitionPattern paragraph =
     (let lower = toLowerCase paragraph
      in js_includes (takeWhile (\<lambda>c. \<not> is_line_terminator c) lower) ''is'' \<or>
         startsWith lower ''are'' \<or>
         startsWith lower ''means'' \<or>
         startsWith lower ''refers to'' \<or>
         startsWith lower ''can be defined as'')"

text \<open>The test for a run of digits succeeds when there is some digit \<open>0\<close> to \<open>9\<close> (codes 48
  to 57).\<close>

definition hasNumbersOrData :: "string \<Rightarrow> bool" where
  "hasNumbersOrData paragraph =
     (\<exists>c \<in> set paragraph. 48 \<le> (of_char c :: nat) \<and> (of_char c :: nat) \<le> 57)"

text \<open>The value of \<open>score\<close> in \<open>scoreParagraphForAEO\<close> before the final \<open>Math.min\<close>, and
  the function itself.\<close>

definition paragraph_points :: "string \<Rightarrow> string \<Rightarrow> nat" where
  "paragraph_points paragraph keyword =
     50
     + (if length paragraph \<ge> 40 \<and> length paragraph \<le> 160 then 20
        else if length paragraph > 160 \<and> length paragraph \<le> 300 then 10 else 0)
     + (if js_includes (toLowerCase paragraph) (toLowerCase keyword) then 15 else 0)
     + (if startsWith (toLowerCase paragraph) (toLowerCase keyword) then 10 else 0)
     + (if hasDefinitionPattern paragraph then 15 else 0)
     + (if hasNumbersOrData paragraph then 5 else 0)"

definition scoreParagraphForAEO :: "string \<Rightarrow> string \<Rightarrow> nat" where
  "scoreParagraphForAEO paragraph keyword = min (paragraph_points paragraph keyword) 100"

text \<open>\<open>createDirectAnswer\<close>: the loop over the paragraphs returns at the first one that
  passes both tests; \<open>None\<close> is \<open>null\<close>.\<close>

fun first_answer :: "string list \<Rightarrow> string \<Rightarrow> AEOSnippet option" where
  "first_answer [] keyword = None"
| "first_answer (para # paragraphs) keyword =
     (let cleanPara = stripTags para
      in if length cleanPara \<ge> 40 \<and> length cleanPara \<le> 300 \<and>
            js_includes (toLowerCase cleanPara) (toLowerCase keyword)
         then (let score = scoreParagraphForAEO cleanPara keyword
               in if score \<ge> 70
                  then Some \<lparr>snippet_type = Paragraph, snippet_content = cleanPara, snippet_score = score,
                             optimization = ''Direct answer optimized for AI Overview''\<rparr>
                  else first_answer paragraphs keyword)
         else first_answer paragraphs keyword)"

definition paragraphs_of :: "string \<Rightarrow> string list" where
  "paragraphs_of content = filter (\<lambda>p. length p > 0) (map trim (js_split content ''</p>''))"

definition createDirectAnswer :: "string \<Rightarrow> string \<Rightarrow> AEOSnippet option" where
  "createDirectAnswer content keyword = first_answer (paragraphs_of content) keyword"

text \<open>A page for the examples; its second paragraph has 50 characters.\<close>

definition example_content :: string where
  "example_content = ''<p>Intro.</p><p>SEO is the practice of making pages easier to find</p>''"

section \<open>The internal-linking engine\<close>

text \<open>
  Modelled from the spec: the declaration of \<open>SitemapPage\<close> (in \<open>types.ts\<close>) is not among the
  sources; the spec lists identifier, title, slug and word count, and the engine reads
  exactly these four (\<open>wordCount\<close> may be missing: \<open>pillar.wordCount || 1000\<close>).
\<close>

record SitemapPage =
  page_id :: string
  title :: string
  slug :: string
  wordCount :: "nat option"

record LinkOpportunity =
  fromPage :: string
  toPage :: string
  anchorText :: string
  relevanceScore :: nat
  contextSnippet :: string
  position :: int
  reason :: string

record LinkCluster =
  pillarPage :: SitemapPage
  clusterPages :: "SitemapPage list"
  linkDensity :: rat
  topicRelevance :: rat

record sentence =
  sentence_text :: string
  sentence_start :: nat
  sentence_end :: nat

subsection \<open>Sentences and keywords\<close>

definition is_terminator :: "char \<Rightarrow> bool" where
  "is_terminator c \<longleftrightarrow> c = CHR ''.'' \<or> c = CHR ''!'' \<or> c = CHR ''?''"

text \<open>
  \<open>extractSentences\<close>: the matches of \<open>/[^.!?]+[.!?]+/g\<close>, left to right. A match cannot
  start at a terminator; from any other character it takes the longest run of
  non-terminators and then the longest run of terminators, and there is none when the
  text ends before a terminator.
\<close>

function sentences_from :: "nat \<Rightarrow> string \<Rightarrow> sentence list" where
  "sentences_from offset [] = []"
| "sentences_from offset (c # cs) =
     (if is_terminator c then sentences_from (Suc offset) cs
      else
        (let body = c # takeWhile (\<lambda>d. \<not> is_terminator d) cs;
             tail = dropWhile (\<lambda>d. \<not> is_terminator d) cs;
             marks = takeWhile is_terminator tail;
             remaining = dropWhile is_terminator tail;
             stop = offset + length body + length marks
         in if marks = [] then []
            else \<lparr>sentence_text = body @ marks, sentence_start = offset, sentence_end = stop\<rparr>
                 # sentences_from stop remaining))"
  by pat_completeness auto
termination
proof (relation "measure (\<lambda>(offset, s). length s)")
  show "wf (measure (\<lambda>(offset, s). length s))" by simp
next
  fix offset :: nat and c :: char and cs :: string
  show "((Suc offset, cs), (offset, c # cs)) \<in> measure (\<lambda>(offset, s). length s)" by simp
next
  fix offset stop :: nat and c :: char and cs body tail marks remaining :: string
  assume "tail = dropWhile (\<lambda>d. \<not> is_terminator d) cs"
    and "remaining = dropWhile is_terminator tail"
  then have "length remaining \<le> length cs"
    using length_dropWhile_le[of is_terminator tail]
      length_dropWhile_le[of "\<lambda>d. \<not> is_terminator d" cs] by simp
  then show "((stop, remaining), (offset, c # cs)) \<in> measure (\<lambda>(offset, s). length s)"
    by simp
qed

definition extractSentences :: "string \<Rightarrow> sentence list" where
  "extractSentences txt = sentences_from 0 txt"

text \<open>Splitting the lowercased title at the runs of white space: the pieces between the
  runs; a leading or trailing run leaves an empty piece.\<close>

function words_at :: "string \<Rightarrow> string \<Rightarrow> string list" where
  "words_at piece [] = [rev piece]"
| "words_at piece (c # cs) =
     (if is_space c then rev piece # words_at [] (dropWhile is_space cs)
      else words_at (c # piece) cs)"
  by pat_completeness auto
termination
proof (relation "measure (\<lambda>(piece, s). length s)")
  show "wf (measure (\<lambda>(piece, s). length s))" by simp
next
  fix piece :: string and c :: char and cs :: string
  show "(([], dropWhile is_space cs), (piece, c # cs)) \<in> measure (\<lambda>(piece, s). length s)"
    using length_dropWhile_le[of is_space cs] by simp
next
  fix piece :: string and c :: char and cs :: string
  show "((c # piece, cs), (piece, c # cs)) \<in> measure (\<lambda>(piece, s). length s)" by simp
qed

definition stopWords :: "string list" where
  "stopWords = [''the'', ''a'', ''an'', ''and'', ''or'', ''but'', ''in'', ''on'', ''at'', ''to'',
                ''for'', ''of'', ''with'', ''by'']"

definition extractKeywords :: "string \<Rightarrow> string list" where
  "extractKeywords t =
     (let ws = words_at [] (toLowerCase t)
      in filter (\<lambda>w. w \<notin> set stopWords \<and> length w > 3) ws)"

text \<open>
  \<open>findKeywordPositions\<close>: \<open>content.indexOf(k, index)\<close> searches from \<open>index\<close> (clamped to the
  text), and the loop moves on by the keyword's length. With the empty keyword the search
  always succeeds and the index never moves: the loop does not return (\<open>None\<close>).
\<close>

definition indexOf_from :: "string \<Rightarrow> string \<Rightarrow> nat \<Rightarrow> nat option" where
  "indexOf_from s sub start =
     map_option (\<lambda>i. min start (length s) + i) (indexOf (drop start s) sub)"

partial_function (option) positions_loop ::
  "string \<Rightarrow> string \<Rightarrow> nat \<Rightarrow> nat list \<Rightarrow> nat list option" where
  "positions_loop content keyword index positions =
     (case indexOf_from content (toLowerCase keyword) index of
        None \<Rightarrow> Some positions
      | Some found \<Rightarrow> positions_loop content keyword (found + length keyword) (positions @ [found]))"

declare positions_loop.simps [code]

definition findKeywordPositions :: "string \<Rightarrow> string \<Rightarrow> nat list option" where
  "findKeywordPositions content keyword = positions_loop content keyword 0 []"

text \<open>\<open>findSentenceAtPosition\<close>: the first sentence whose range, both ends included, holds
  the position.\<close>

fun findSentenceAtPosition :: "sentence list \<Rightarrow> nat \<Rightarrow> string option" where
  "findSentenceAtPosition [] pos = None"
| "findSentenceAtPosition (s # sentences) pos =
     (if pos \<ge> sentence_start s \<and> pos \<le> sentence_end s then Some (sentence_text s)
      else findSentenceAtPosition sentences pos)"

definition hasLinkNearby :: "string \<Rightarrow> nat \<Rightarrow> bool" where
  "hasLinkNearby content pos =
     (let range = 100;
          beforeText = substring content (max 0 (int pos - range)) (int pos);
          afterText = substring content (int pos) (min (int (length content)) (int pos + range))
      in js_includes beforeText ''<a '' \<or> js_includes afterText ''<a '')"

text \<open>
  \<open>calculateRelevance\<close> counts the matches of \<open>new RegExp(keyword, 'g')\<close> in the lowercased
  sentence. For a keyword without regular-expression metacharacters these are the
  non-overlapping literal occurrences, left to right (for the empty keyword, one match
  at every offset). For any other keyword the regular-expression engine decides, and it
  is a parameter here: \<open>regexp_matches pattern subject\<close> is the number of matches, or \<open>None\<close>
  when \<open>pattern\<close> is not a regular expression and the constructor raises a
  \<open>SyntaxError\<close>, which leaves \<open>calculateRelevance\<close> and its callers as an exception
  (\<open>Inl\<close>).
\<close>

datatype js_error = SyntaxError

type_synonym regexp_engine = "string \<Rightarrow> string \<Rightarrow> nat option"

definition regex_metachars :: "char list" where
  "regex_metachars = ''^$.*+?()[]{}|'' @ [CHR 0x5C]"

definition regex_literal :: "string \<Rightarrow> bool" where
  "regex_literal keyword \<longleftrightarrow> (\<forall>c \<in> set keyword. c \<notin> set regex_metachars)"

fun count_literal :: "string \<Rightarrow> string \<Rightarrow> nat" where
  "count_literal [] s = length s + 1"
| "count_literal (x # xs) [] = 0"
| "count_literal (x # xs) (c # cs) =
     (if prefix (x # xs) (c # cs) then Suc (count_literal (x # xs) (drop (length xs) cs))
      else count_literal (x # xs) cs)"

definition match_count :: "regexp_engine \<Rightarrow> string \<Rightarrow> string \<Rightarrow> nat option" where
  "match_count regexp_matches pattern subject =
     (if regex_literal pattern then Some (count_literal pattern subject)
      else regexp_matches pattern subject)"

definition calculateRelevance :: "regexp_engine \<Rightarrow> string \<Rightarrow> string \<Rightarrow> js_error + nat" where
  "calculateRelevance regexp_matches keyword sentence =
     (case match_count regexp_matches keyword (toLowerCase sentence) of
        None \<Rightarrow> Inl SyntaxError
      | Some keywordCount \<Rightarrow>
          (let score = 50 + min (keywordCount * 10) 30;
               score = (if length sentence < 150 then score + 10 else score);
               score = (if js_includes sentence ''learn'' \<or> js_includes sentence ''read'' \<or>
                           js_includes sentence ''guide''
                        then score + 10 else score)
           in Inr (min score 100)))"

subsection \<open>Link opportunities\<close>

definition mention_reason :: "string \<Rightarrow> string" where
  "mention_reason keyword =
     ''Contextually relevant mention of '' @ [CHR 0x22] @ keyword @ [CHR 0x22]"

text \<open>
  The three nested loops of \<open>generateLinkOpportunities\<close>, innermost first, each passing the
  list \<open>opportunities\<close> on. The innermost returns or raises (\<open>Inl\<close>); the outer two also
  inherit from \<open>findKeywordPositions\<close> that they may not return (\<open>None\<close>).
\<close>

fun position_loop ::
  "regexp_engine \<Rightarrow> string \<Rightarrow> sentence list \<Rightarrow> SitemapPage \<Rightarrow> string \<Rightarrow> nat list \<Rightarrow>
   LinkOpportunity list \<Rightarrow> js_error + LinkOpportunity list" where
  "position_loop rx targetContent sentences page keyword [] opportunities = Inr opportunities"
| "position_loop rx targetContent sentences page keyword (pos # rest) opportunities =
     (case findSentenceAtPosition sentences pos of
        None \<Rightarrow> position_loop rx targetContent sentences page keyword rest opportunities
      | Some sentence \<Rightarrow>
          if \<not> hasLinkNearby targetContent pos
          then (case calculateRelevance rx keyword sentence of
                  Inl e \<Rightarrow> Inl e
                | Inr relevance \<Rightarrow>
                    position_loop rx targetContent sentences page keyword rest
                      (opportunities @
                        [\<lparr>fromPage = ''current'', toPage = slug page, anchorText = keyword,
                          relevanceScore = relevance, contextSnippet = substring sentence 0 100,
                          position = int pos, reason = mention_reason keyword\<rparr>]))
          else position_loop rx targetContent sentences page keyword rest opportunities)"

fun keyword_loop ::
  "regexp_engine \<Rightarrow> string \<Rightarrow> string \<Rightarrow> sentence list \<Rightarrow> SitemapPage \<Rightarrow> string list \<Rightarrow>
   LinkOpportunity list \<Rightarrow> (js_error + LinkOpportunity list) option" where
  "keyword_loop rx targetContent contentLower sentences page [] opportunities =
     Some (Inr opportunities)"
| "keyword_loop rx targetContent contentLower sentences page (keyword # keywords) opportunities =
     (case findKeywordPositions contentLower keyword of
        None \<Rightarrow> None
      | Some positions \<Rightarrow>
          (case position_loop rx targetContent sentences page keyword positions opportunities of
             Inl e \<Rightarrow> Some (Inl e)
           | Inr opportunities' \<Rightarrow>
               keyword_loop rx targetContent contentLower sentences page keywords
                 opportunities'))"

fun page_loop ::
  "regexp_engine \<Rightarrow> string \<Rightarrow> string \<Rightarrow> sentence list \<Rightarrow> SitemapPage list \<Rightarrow>
   LinkOpportunity list \<Rightarrow> (js_error + LinkOpportunity list) option" where
  "page_loop rx targetContent contentLower sentences [] opportunities = Some (Inr opportunities)"
| "page_loop rx targetContent contentLower sentences (page # pages) opportunities =
     (case keyword_loop rx targetContent contentLower sentences page
             (extractKeywords (title page)) opportunities of
        None \<Rightarrow> None
      | Some (Inl e) \<Rightarrow> Some (Inl e)
      | Some (Inr opportunities') \<Rightarrow>
          page_loop rx targetContent contentLower sentences pages opportunities')"

text \<open>\<open>distributeEvenly\<close>: a candidate is kept when it lies at least \<open>minDistance\<close> after the
  last kept one, or when nothing is kept yet.\<close>

fun distribute_loop ::
  "int \<Rightarrow> int \<Rightarrow> LinkOpportunity list \<Rightarrow> LinkOpportunity list \<Rightarrow> LinkOpportunity list" where
  "distribute_loop minDistance lastPosition distributed [] = distributed"
| "distribute_loop minDistance lastPosition distributed (opp # opps) =
     (if position opp - lastPosition \<ge> minDistance \<or> length distributed = 0
      then distribute_loop minDistance (position opp) (distributed @ [opp]) opps
      else distribute_loop minDistance lastPosition distributed opps)"

definition distributeEvenly :: "LinkOpportunity list \<Rightarrow> nat \<Rightarrow> LinkOpportunity list" where
  "distributeEvenly opportunities contentLength =
     (let minDistance = int (contentLength div (length opportunities + 1))
      in distribute_loop minDistance 0 [] opportunities)"

text \<open>\<open>Array.prototype.sort\<close> is stable; sorting by descending score is the stable
  insertion sort on the negated score.\<close>

definition generateLinkOpportunities ::
  "regexp_engine \<Rightarrow> string \<Rightarrow> SitemapPage list \<Rightarrow> int \<Rightarrow>
   (js_error + LinkOpportunity list) option" where
  "generateLinkOpportunities rx targetContent existingPages maxLinks =
     (let contentLower = toLowerCase targetContent;
          sentences = extractSentences targetContent
      in case page_loop rx targetContent contentLower sentences existingPages [] of
           None \<Rightarrow> None
         | Some (Inl e) \<Rightarrow> Some (Inl e)
         | Some (Inr opportunities) \<Rightarrow>
             (let sorted = slice (sort_key (\<lambda>opp. - int (relevanceScore opp)) opportunities)
                             0 maxLinks
              in Some (Inr (distributeEvenly sorted (length targetContent)))))"

subsection \<open>Link injection\<close>

definition anchor_tag :: "string \<Rightarrow> string \<Rightarrow> string" where
  "anchor_tag page_slug anchor =
     ''<a href='' @ [CHR 0x22] @ ''/'' @ page_slug @ [CHR 0x22] @ '' class='' @ [CHR 0x22]
     @ ''internal-link'' @ [CHR 0x22] @ ''>'' @ anchor @ ''</a>''"

text \<open>One round of the loop of \<open>injectContextualLinks\<close>, on the pair of \<open>modifiedContent\<close>
  and the set \<open>injected\<close>.\<close>

definition inject_step :: "string \<times> int set \<Rightarrow> LinkOpportunity \<Rightarrow> string \<times> int set" where
  "inject_step state opp =
     (let modifiedContent = fst state; injected = snd state
      in if position opp \<in> injected then state
         else
           (let afterLink = substring_from modifiedContent (position opp)
            in case indexOf afterLink (anchorText opp) of
                 None \<Rightarrow> state
               | Some anchorStart \<Rightarrow>
                   if anchorStart < 200
                   then (let actualPosition = position opp + int anchorStart;
                             beforeText = substring modifiedContent 0 actualPosition;
                             afterText = substring_from modifiedContent
                                           (actualPosition + int (length (anchorText opp)));
                             link = anchor_tag (toPage opp) (anchorText opp)
                         in (beforeText @ link @ afterText, insert actualPosition injected))
                   else state))"

definition injectContextualLinks :: "string \<Rightarrow> LinkOpportunity list \<Rightarrow> string" where
  "injectContextualLinks content opportunities =
     fst (foldl inject_step (content, {}) opportunities)"

subsection \<open>Topic clusters\<close>

text \<open>\<open>findRelatedPages\<close>: the other pages (by identifier) that share a keyword, by
  descending number of shared keywords (stable), the first eight.\<close>

definition findRelatedPages :: "SitemapPage \<Rightarrow> SitemapPage list \<Rightarrow> SitemapPage list" where
  "findRelatedPages page allPages =
     (let pageKeywords = extractKeywords (title page);
          related =
            concat (map (\<lambda>otherPage.
                      if page_id otherPage = page_id page then []
                      else (let otherKeywords = extractKeywords (title otherPage);
                                commonKeywords = filter (\<lambda>k. k \<in> set otherKeywords) pageKeywords
                            in if length commonKeywords > 0
                               then [(otherPage, length commonKeywords)] else []))
                    allPages)
      in map fst (slice (sort_key (\<lambda>r. - int (snd r)) related) 0 8))"

definition calculateClusterLinkDensity :: "SitemapPage \<Rightarrow> SitemapPage list \<Rightarrow> rat" where
  "calculateClusterLinkDensity pillar cluster =
     (of_nat (length cluster)
        / of_nat (max (case wordCount pillar of None \<Rightarrow> 1000
                       | Some w \<Rightarrow> if w = 0 then 1000 else w) 1000)) * 100"

definition calculateTopicRelevance :: "SitemapPage \<Rightarrow> SitemapPage list \<Rightarrow> rat" where
  "calculateTopicRelevance pillar cluster =
     (let pillarKeywords = extractKeywords (title pillar);
          totalOverlap =
            foldl (\<lambda>total page.
                     total + length (filter (\<lambda>k. k \<in> set (extractKeywords (title page)))
                                       pillarKeywords))
                  0 cluster
      in (of_nat totalOverlap / of_nat (length cluster)) * 20)"

text \<open>The loop of \<open>identifyTopicClusters\<close> on the pair of \<open>clusters\<close> (in the order they are
  pushed) and the set \<open>processed\<close>; the function then sorts by descending relevance.\<close>

fun cluster_loop ::
  "SitemapPage list \<Rightarrow> SitemapPage list \<Rightarrow> LinkCluster list \<times> string set \<Rightarrow>
   LinkCluster list \<times> string set" where
  "cluster_loop pages [] state = state"
| "cluster_loop pages (page # rest) (clusters, processed) =
     (if page_id page \<in> processed then cluster_loop pages rest (clusters, processed)
      else
        (let relatedPages = findRelatedPages page pages
         in if length relatedPages \<ge> 2
            then cluster_loop pages rest
                   (clusters @
                     [\<lparr>pillarPage = page, clusterPages = relatedPages,
                       linkDensity = calculateClusterLinkDensity page relatedPages,
                       topicRelevance = calculateTopicRelevance page relatedPages\<rparr>],
                    processed \<union> {page_id page} \<union> set (map page_id relatedPages))
            else cluster_loop pages rest (clusters, processed)))"

definition emitted_clusters :: "SitemapPage list \<Rightarrow> LinkCluster list" where
  "emitted_clusters pages = fst (cluster_loop pages pages ([], {}))"

definition identifyTopicClusters :: "SitemapPage list \<Rightarrow> LinkCluster list" where
  "identifyTopicClusters pages = sort_key (\<lambda>c. - topicRelevance c) (emitted_clusters pages)"

text \<open>The identifiers a cluster claims: its pillar's and its members'.\<close>

definition claimed_ids :: "LinkCluster \<Rightarrow> string set" where
  "claimed_ids c = insert (page_id (pillarPage c)) (set (map page_id (clusterPages c)))"

subsection \<open>Example data\<close>

text \<open>The keywords of the examples hold no metacharacter, so the engine is never asked; this
  one accepts no pattern.\<close>

definition no_regexp :: regexp_engine where
  "no_regexp pattern subject = None"

text \<open>The page of the relevance example, and a page whose slug does not repeat its keyword.\<close>

definition cycling_page :: SitemapPage where
  "cycling_page =
     \<lparr>page_id = ''p1'', title = ''Best Smartwatches For Cycling'',
      slug = ''best-smartwatches-for-cycling'', wordCount = Some 1800\<rparr>"

definition tours_page :: SitemapPage where
  "tours_page = \<lparr>page_id = ''p2'', title = ''Cycling Tours'', slug = ''bike-tours'', wordCount = None\<rparr>"

text \<open>What discovery finds for \<open>tours_page\<close> in \<open>We love cycling.\<close> and in \<open>Cycling is fun.\<close>\<close>

definition tours_opportunity :: LinkOpportunity where
  "tours_opportunity =
     \<lparr>fromPage = ''current'', toPage = ''bike-tours'', anchorText = ''cycling'',
      relevanceScore = 70, contextSnippet = ''We love cycling.'', position = 8,
      reason = mention_reason ''cycling''\<rparr>"

definition capital_opportunity :: LinkOpportunity where
  "capital_opportunity =
     \<lparr>fromPage = ''current'', toPage = ''bike-tours'', anchorText = ''cycling'',
      relevanceScore = 70, contextSnippet = ''Cycling is fun.'', position = 0,
      reason = mention_reason ''cycling''\<rparr>"

text \<open>Two pages and what discovery finds for them in \<open>our tours Cycling.\<close>: the slug of the
  first holds the keyword of the second.\<close>

definition great_tours_page :: SitemapPage where
  "great_tours_page =
     \<lparr>page_id = ''p3'', title = ''Great Tours'', slug = ''cycling-tours'', wordCount = None\<rparr>"

definition cycling_topic_page :: SitemapPage where
  "cycling_topic_page =
     \<lparr>page_id = ''p4'', title = ''Cycling'', slug = ''cycling'', wordCount = None\<rparr>"

definition tours_mention :: LinkOpportunity where
  "tours_mention =
     \<lparr>fromPage = ''current'', toPage = ''cycling-tours'', anchorText = ''tours'',
      relevanceScore = 70, contextSnippet = ''our tours Cycling.'', position = 4,
      reason = mention_reason ''tours''\<rparr>"

definition capital_mention :: LinkOpportunity where
  "capital_mention =
     \<lparr>fromPage = ''current'', toPage = ''cycling'', anchorText = ''cycling'',
      relevanceScore = 70, contextSnippet = ''our tours Cycling.'', position = 10,
      reason = mention_reason ''cycling''\<rparr>"

text \<open>Four pages: \<open>a\<close> shares a keyword with \<open>b\<close> and with \<open>c\<close>; \<open>d\<close> shares one with \<open>b\<close> and
  \<open>c\<close> but none with \<open>a\<close>. And the two clusters they give.\<close>

definition page_a :: SitemapPage where
  "page_a = \<lparr>page_id = ''a'', title = ''Apple Banana'', slug = ''apple-banana'', wordCount = Some 1200\<rparr>"

definition page_b :: SitemapPage where
  "page_b = \<lparr>page_id = ''b'', title = ''Apple Cherry'', slug = ''apple-cherry'', wordCount = Some 900\<rparr>"

definition page_c :: SitemapPage where
  "page_c = \<lparr>page_id = ''c'', title = ''Banana Cherry'', slug = ''banana-cherry'', wordCount = None\<rparr>"

definition page_d :: SitemapPage where
  "page_d = \<lparr>page_id = ''d'', title = ''Cherry Desserts'', slug = ''cherry-desserts'', wordCount = Some 2000\<rparr>"

definition cluster_a :: LinkCluster where
  "cluster_a = \<lparr>pillarPage = page_a, clusterPages = [page_b, page_c], linkDensity = 1 / 6,
                 topicRelevance = 20\<rparr>"

definition cluster_d :: LinkCluster where
  "cluster_d = \<lparr>pillarPage = page_d, clusterPages = [page_b, page_c], linkDensity = 1 / 10,
                 topicRelevance = 20\<rparr>"

text \<open>The order the loop of \<open>identifyTopicClusters\<close> keeps: the pillar of a later cluster is
  not among the identifiers an earlier cluster claimed.\<close>

definition pillars_fresh :: "LinkCluster list \<Rightarrow> bool" where
  "pillars_fresh cs =
     sorted_wrt (\<lambda>earlier later. page_id (pillarPage later) \<notin> claimed_ids earlier) cs"

section \<open>Facts about the string operations\<close>

subsection \<open>Reading a text at an offset\<close>

lemma reads_at_Cons_Suc [simp]: "reads_at (c # cs) sub (Suc i) = reads_at cs sub i"
  by (simp add: reads_at_def)

lemma reads_at_0: "reads_at s sub 0 = prefix sub s"
  by (simp add: reads_at_def)

lemma reads_at_length:
  assumes "reads_at s sub i" "sub \<noteq> []"
  shows "i + length sub \<le> length s"
proof -
  from assms(1) have "length sub \<le> length s - i"
    unfolding reads_at_def by (auto dest: prefix_length_le)
  moreover from assms(2) have "0 < length sub" by simp
  ultimately show ?thesis by linarith
qed

lemma reads_at_drop: "reads_at (drop k s) sub j = reads_at s sub (k + j)"
  by (simp add: reads_at_def add.commute)

lemma reads_at_take:
  assumes "reads_at (take m s) sub j" "sub \<noteq> []"
  shows "reads_at s sub j \<and> j + length sub \<le> m"
proof -
  from reads_at_length[OF assms] have "j + length sub \<le> m" by simp
  moreover have "prefix (drop j (take m s)) (drop j s)"
    by (simp add: drop_take take_is_prefix)
  with assms(1) have "reads_at s sub j"
    unfolding reads_at_def by (rule prefix_order.trans)
  ultimately show ?thesis by blast
qed

lemma reads_at_middle:
  assumes "reads_at b sub j"
  shows "reads_at (a @ b @ c) sub (length a + j)"
proof -
  have "prefix (drop j b) (drop j (b @ c))" by simp
  with assms have "prefix sub (drop j (b @ c))"
    unfolding reads_at_def by (rule prefix_order.trans)
  then show ?thesis by (simp add: reads_at_def)
qed

lemma reads_at_inside:
  assumes "reads_at (a @ b @ c) sub (length a + j)" and "j + length sub \<le> length b"
  shows "reads_at b sub j"
proof -
  from assms(1) have "prefix sub (drop j b @ c)"
    using assms(2) by (simp add: reads_at_def)
  moreover have "prefix (drop j b) (drop j b @ c)" by simp
  moreover have "length sub \<le> length (drop j b)" using assms(2) by simp
  ultimately show ?thesis unfolding reads_at_def by (rule prefix_length_prefix)
qed

subsection \<open>\<open>indexOf\<close> returns the first offset at which the text reads the string\<close>

lemma indexOf_Some_iff:
  "indexOf s sub = Some i \<longleftrightarrow>
     reads_at s sub i \<and> i \<le> length s \<and> (\<forall>j<i. \<not> reads_at s sub j)"
proof (induction s arbitrary: i)
  case Nil
  then show ?case by (auto simp: reads_at_def)
next
  case (Cons c cs)
  show ?case
  proof (cases "prefix sub (c # cs)")
    case True
    then show ?thesis
      by (cases i) (auto simp: reads_at_0)
  next
    case False
    show ?thesis
    proof (cases i)
      case 0
      with False show ?thesis by (simp add: reads_at_0)
    next
      case (Suc k)
      have "(\<forall>j<Suc k. \<not> reads_at (c # cs) sub j) \<longleftrightarrow> (\<forall>j<k. \<not> reads_at cs sub j)"
      proof
        assume a: "\<forall>j<Suc k. \<not> reads_at (c # cs) sub j"
        show "\<forall>j<k. \<not> reads_at cs sub j"
        proof (intro allI impI)
          fix j assume "j < k"
          then have "Suc j < Suc k" by simp
          with a have "\<not> reads_at (c # cs) sub (Suc j)" by blast
          then show "\<not> reads_at cs sub j" by simp
        qed
      next
        assume a: "\<forall>j<k. \<not> reads_at cs sub j"
        show "\<forall>j<Suc k. \<not> reads_at (c # cs) sub j"
        proof (intro allI impI)
          fix j assume j: "j < Suc k"
          show "\<not> reads_at (c # cs) sub j"
          proof (cases j)
            case 0
            with False show ?thesis by (simp add: reads_at_0)
          next
            case (Suc j')
            with j a show ?thesis by simp
          qed
        qed
      qed
      with False Suc Cons.IH[of k] show ?thesis by simp
    qed
  qed
qed

lemma indexOf_None_iff:
  "indexOf s sub = None \<longleftrightarrow> (\<forall>j\<le>length s. \<not> reads_at s sub j)"
proof
  assume n: "indexOf s sub = None"
  show "\<forall>j\<le>length s. \<not> reads_at s sub j"
  proof (intro allI impI notI)
    fix j assume j: "j \<le> length s" and r: "reads_at s sub j"
    define m where "m = (LEAST k. reads_at s sub k)"
    have rm: "reads_at s sub m" unfolding m_def using r by (rule LeastI)
    have "m \<le> j" unfolding m_def using r by (rule Least_le)
    moreover have "\<forall>k<m. \<not> reads_at s sub k"
      unfolding m_def using not_less_Least by blast
    ultimately have "indexOf s sub = Some m"
      using rm j by (simp add: indexOf_Some_iff)
    with n show False by simp
  qed
next
  assume a: "\<forall>j\<le>length s. \<not> reads_at s sub j"
  show "indexOf s sub = None"
  proof (cases "indexOf s sub")
    case None
    then show ?thesis .
  next
    case (Some i)
    then have "reads_at s sub i \<and> i \<le> length s" by (simp add: indexOf_Some_iff)
    with a show ?thesis by blast
  qed
qed

lemma never_reads_indexOf:
  "(\<forall>j. \<not> reads_at s sub j) \<Longrightarrow> indexOf s sub = None"
  by (simp add: indexOf_None_iff)

lemma indexOf_None_never:
  assumes "indexOf s sub = None" "sub \<noteq> []"
  shows "\<not> reads_at s sub j"
proof
  assume r: "reads_at s sub j"
  from reads_at_length[OF r assms(2)] have "j \<le> length s" by simp
  with assms(1) r show False by (simp add: indexOf_None_iff)
qed

lemma js_includes_iff: "js_includes s sub \<longleftrightarrow> (\<exists>j\<le>length s. reads_at s sub j)"
  by (auto simp: js_includes_def indexOf_None_iff)

lemma first_within:
  "(\<exists>a. indexOf s sub = Some a \<and> a < k) \<longleftrightarrow> (\<exists>j<k. reads_at s sub j)"
proof
  assume "\<exists>a. indexOf s sub = Some a \<and> a < k"
  then obtain a where "indexOf s sub = Some a" "a < k" by blast
  then have "reads_at s sub a" "a < k" unfolding indexOf_Some_iff by blast+
  then show "\<exists>j<k. reads_at s sub j" by blast
next
  assume "\<exists>j<k. reads_at s sub j"
  then obtain j where j: "j < k" "reads_at s sub j" by blast
  show "\<exists>a. indexOf s sub = Some a \<and> a < k"
  proof (cases "indexOf s sub")
    case None
    then have never: "\<forall>i\<le>length s. \<not> reads_at s sub i" unfolding indexOf_None_iff .
    with j(2) have "\<not> j \<le> length s" by blast
    with j(2) have "sub = []" by (simp add: reads_at_def)
    then have "reads_at s sub 0" by (simp add: reads_at_def)
    with never show ?thesis by blast
  next
    case (Some a)
    then have "\<forall>i<a. \<not> reads_at s sub i" unfolding indexOf_Some_iff by blast
    with j(2) have "\<not> j < a" by blast
    with j(1) Some show ?thesis by simp
  qed
qed

lemma only_at_by_search:
  assumes first: "indexOf s sub = Some p" and rest: "indexOf (drop (Suc p) s) sub = None"
    and ne: "sub \<noteq> []"
  shows "reads_at s sub p \<and> \<not> (\<exists>j. j \<noteq> p \<and> reads_at s sub j)"
proof -
  from first have r: "reads_at s sub p" and before: "\<forall>j<p. \<not> reads_at s sub j"
    unfolding indexOf_Some_iff by blast+
  have "\<not> reads_at s sub j" if "j \<noteq> p" for j
  proof (cases "j < p")
    case True
    with before show ?thesis by blast
  next
    case False
    with that have "j = Suc p + (j - Suc p)" by simp
    moreover have "\<not> reads_at (drop (Suc p) s) sub (j - Suc p)"
      using rest ne by (rule indexOf_None_never)
    then have "\<not> reads_at s sub (Suc p + (j - Suc p))"
      unfolding reads_at_drop .
    ultimately show ?thesis by simp
  qed
  with r show ?thesis by blast
qed

lemma never_by_search:
  assumes "indexOf s sub = None" and "sub \<noteq> []"
  shows "\<not> (\<exists>j. reads_at s sub j)"
  using indexOf_None_never[OF assms] by blast

lemma includes_window:
  assumes "js_includes (take m (drop k s)) sub" "sub \<noteq> []"
  shows "\<exists>i. k \<le> i \<and> i + length sub \<le> k + m \<and> reads_at s sub i"
proof -
  from assms(1) obtain j where "reads_at (take m (drop k s)) sub j"
    unfolding js_includes_iff by blast
  from reads_at_take[OF this assms(2)]
  have "reads_at (drop k s) sub j" and "j + length sub \<le> m" by blast+
  then have "reads_at s sub (k + j)" and "k + j + length sub \<le> k + m"
    by (simp_all add: reads_at_drop)
  then show ?thesis by (intro exI[of _ "k + j"]) simp
qed

subsection \<open>\<open>substring\<close> and \<open>toLowerCase\<close>\<close>

lemma substring_window:
  assumes "0 \<le> a" "a \<le> b"
  shows "substring s a b = take (nat b - nat a) (drop (nat a) s)"
proof (cases "a \<le> int (length s)")
  case True
  with assms have "substring s a b = take (nat (min b (int (length s)) - a)) (drop (nat a) s)"
    by (simp add: substring_def Let_def min_def max_def)
  also have "\<dots> = take (nat b - nat a) (drop (nat a) s)"
  proof (cases "b \<le> int (length s)")
    case True
    with assms show ?thesis by (simp add: min_def nat_diff_distrib)
  next
    case False
    with assms True have "length (drop (nat a) s) \<le> nat (min b (int (length s)) - a)"
      and "length (drop (nat a) s) \<le> nat b - nat a"
      by (simp_all add: min_def)
    then show ?thesis by simp
  qed
  finally show ?thesis .
next
  case False
  with assms show ?thesis by (simp add: substring_def Let_def min_def max_def)
qed

lemma substring_from_drop: "substring_from s p = drop (nat p) s"
proof (cases "p \<le> int (length s)")
  case True
  then show ?thesis
    by (simp add: substring_from_def substring_def Let_def min_def max_def)
next
  case False
  then show ?thesis
    by (simp add: substring_from_def substring_def Let_def min_def max_def)
qed

lemma substring_0_take: "substring s 0 p = take (nat p) s"
proof (cases "0 \<le> p")
  case True
  then show ?thesis using substring_window[of 0 p s] by simp
next
  case False
  then show ?thesis by (simp add: substring_def Let_def min_def max_def)
qed

lemma length_toLowerCase [simp]: "length (toLowerCase s) = length s"
  by (simp add: toLowerCase_def)

lemma toLowerCase_Nil_iff [simp]: "toLowerCase s = [] \<longleftrightarrow> s = []"
  by (simp add: toLowerCase_def)

lemma toLowerCase_append: "toLowerCase (a @ b) = toLowerCase a @ toLowerCase b"
  by (simp add: toLowerCase_def)

lemma small_letters_stay:
  "\<forall>d \<in> set ''abcdefghijklmnopqrstuvwxyz''.
     map_of (zip ''ABCDEFGHIJKLMNOPQRSTUVWXYZ'' ''abcdefghijklmnopqrstuvwxyz'') d = None"
  by code_simp

lemma toLower_char_idem: "toLower_char (toLower_char c) = toLower_char c"
proof (cases "map_of (zip ''ABCDEFGHIJKLMNOPQRSTUVWXYZ'' ''abcdefghijklmnopqrstuvwxyz'') c")
  case None
  then show ?thesis by (simp add: toLower_char_def)
next
  case (Some d)
  then have "(c, d) \<in> set (zip ''ABCDEFGHIJKLMNOPQRSTUVWXYZ'' ''abcdefghijklmnopqrstuvwxyz'')"
    by (rule map_of_SomeD)
  then have "d \<in> set ''abcdefghijklmnopqrstuvwxyz''" by (rule set_zip_rightD)
  with small_letters_stay
  have "map_of (zip ''ABCDEFGHIJKLMNOPQRSTUVWXYZ'' ''abcdefghijklmnopqrstuvwxyz'') d = None"
    by blast
  with Some show ?thesis by (simp add: toLower_char_def)
qed

section \<open>Properties of the scheduler\<close>

subsection \<open>Chunking and the batch loop\<close>

lemma slice_window:
  "0 \<le> i \<Longrightarrow> 0 < c \<Longrightarrow> slice xs i (i + c) = take (nat c) (drop (nat i) xs)"
  by (auto simp: slice_def Let_def min_def max_def take_all_iff nat_diff_distrib' intro!: arg_cong2[where f=take])

lemma chunk_loop_returns:
  assumes "0 < c" "0 \<le> i"
  shows "\<exists>r. chunk_loop tasks c i chunks = Some r \<and> concat r = concat chunks @ drop (nat i) tasks"
  using assms
proof (induction "length tasks - nat i" arbitrary: i chunks rule: less_induct)
  case less
  show ?case
  proof (cases "i < int (length tasks)")
    case False
    then show ?thesis using less.prems by (subst chunk_loop.simps) simp
  next
    case True
    have "length tasks - nat (i + c) < length tasks - nat i"
      using True less.prems by linarith
    from less.hyps[OF this, of "chunks @ [slice tasks i (i + c)]"] less.prems
    obtain r where r: "chunk_loop tasks c (i + c) (chunks @ [slice tasks i (i + c)]) = Some r"
      "concat r = concat (chunks @ [slice tasks i (i + c)]) @ drop (nat (i + c)) tasks"
      by auto
    have "take (nat c) (drop (nat i) tasks) @ drop (nat (i + c)) tasks = drop (nat i) tasks"
      using less.prems by (metis add.commute append_take_drop_id drop_drop nat_add_distrib order_less_imp_le)
    with r show ?thesis using True less.prems
      by (subst chunk_loop.simps) (simp add: slice_window)
  qed
qed

lemma chunk_loop_diverges_aux:
  assumes ret: "chunk_loop tasks c i chunks = Some r"
  shows "chunk_loop tasks c i chunks = Some r \<longrightarrow> \<not> (c \<le> 0 \<and> i < int (length tasks))"
proof (rule chunk_loop.raw_induct[where P = "\<lambda>tasks c i chunks r.
    chunk_loop tasks c i chunks = Some r \<longrightarrow> \<not> (c \<le> 0 \<and> i < int (length tasks))", OF _ ret])
  fix f tasks c i chunks r
  assume IH: "\<And>tasks c i chunks r. f tasks c i chunks = Some r \<Longrightarrow>
          chunk_loop tasks c i chunks = Some r \<longrightarrow> \<not> (c \<le> 0 \<and> i < int (length tasks))"
    and body: "(if i < int (length tasks)
          then f tasks c (i + c) (chunks @ [slice tasks i (i + c)])
          else Some chunks) = Some r"
  show "chunk_loop tasks c i chunks = Some r \<longrightarrow> \<not> (c \<le> 0 \<and> i < int (length tasks))"
  proof (intro impI notI)
    assume real: "chunk_loop tasks c i chunks = Some r"
    assume a: "c \<le> 0 \<and> i < int (length tasks)"
    with body have l: "f tasks c (i + c) (chunks @ [slice tasks i (i + c)]) = Some r"
      by simp
    from a real have "chunk_loop tasks c (i + c) (chunks @ [slice tasks i (i + c)]) = Some r"
      by (subst (asm) chunk_loop.simps) simp
    from IH[OF l] this a show False by simp
  qed
qed

lemma chunk_loop_diverges:
  "c \<le> 0 \<Longrightarrow> i < int (length tasks) \<Longrightarrow> chunk_loop tasks c i chunks = None"
  using chunk_loop_diverges_aux[of tasks c i chunks] by (cases "chunk_loop tasks c i chunks") auto

lemma run_chunk_append:
  "run_chunk env n (a @ b) = run_chunk env n a @ run_chunk env (n + length a) b"
  by (simp add: run_chunk_def enumerate_append_eq)

lemma batch_loop_eq:
  "batch_loop env chunks (rs, st) =
     (rs @ run_chunk env (calls st) (concat chunks),
      st\<lparr>calls := calls st + length (concat chunks),
         trace := trace st @ concat (map (\<lambda>c. map Dispatched c @ map Collected c) chunks)\<rparr>)"
proof (induction chunks arbitrary: rs st)
  case Nil
  then show ?case by (simp add: run_chunk_def)
next
  case (Cons c cs)
  show ?case by (simp add: Cons.IH run_chunk_append add.assoc)
qed

lemma run_chunk_ids: "map result_id (run_chunk env n ts) = map task_id ts"
  unfolding run_chunk_def
  by (induction ts arbitrary: n)
    (auto simp: processResult_def executeTask_def split: sum.splits call_outcome.splits js_thrown.splits)

lemma dispatched_tasks_append [simp]:
  "dispatched_tasks (xs @ ys) = dispatched_tasks xs @ dispatched_tasks ys"
  by (induction xs rule: dispatched_tasks.induct) auto

lemma collected_tasks_append [simp]:
  "collected_tasks (xs @ ys) = collected_tasks xs @ collected_tasks ys"
  by (induction xs rule: collected_tasks.induct) auto

lemma dispatched_tasks_map [simp]:
  "dispatched_tasks (map Dispatched c) = c" "dispatched_tasks (map Collected c) = []"
  by (induction c) auto

lemma collected_tasks_map [simp]:
  "collected_tasks (map Dispatched c) = []" "collected_tasks (map Collected c) = c"
  by (induction c) auto

lemma chunks_trace_tasks:
  "dispatched_tasks (chunks_trace chunks) = concat chunks"
  "collected_tasks (chunks_trace chunks) = concat chunks"
  "map event_task (chunks_trace chunks) = concat (map (\<lambda>c. c @ c) chunks)"
  by (induction chunks) (auto simp: chunks_trace_def comp_def)

lemma chunkTasks_concat:
  assumes "chunkTasks tasks c = Some chunks"
  shows "concat chunks = tasks"
proof (cases "0 < c")
  case True
  from chunk_loop_returns[OF True, of 0 tasks "[]"] assms show ?thesis
    by (auto simp: chunkTasks_def)
next
  case False
  show ?thesis
  proof (cases tasks)
    case Nil
    with assms show ?thesis
      by (simp add: chunkTasks_def chunk_loop.simps)
  next
    case (Cons t ts)
    with False have "chunk_loop tasks c 0 [] = None"
      by (intro chunk_loop_diverges) auto
    with assms show ?thesis by (simp add: chunkTasks_def)
  qed
qed

lemma executeParallelBatch_Some:
  assumes "executeParallelBatch env mc tasks st = Some (rs, st')"
  shows "rs = run_chunk env (calls st) tasks"
    and "calls st' = calls st + length tasks"
    and "\<exists>tr. trace st' = trace st @ tr \<and> dispatched_tasks tr = tasks \<and> collected_tasks tr = tasks
           \<and> set (map event_task tr) \<subseteq> set tasks \<and> length tr = 2 * length tasks"
proof -
  from assms obtain chunks where c: "chunkTasks tasks mc = Some chunks"
    and b: "batch_loop env chunks ([], st) = (rs, st')"
    by (auto simp: executeParallelBatch_def split: option.splits)
  note cc = chunkTasks_concat[OF c]
  from b show "rs = run_chunk env (calls st) tasks" "calls st' = calls st + length tasks"
    by (auto simp: batch_loop_eq cc)
  from b have t: "trace st' = trace st @ chunks_trace chunks"
    by (auto simp: batch_loop_eq chunks_trace_def)
  have "set (map event_task (chunks_trace chunks)) \<subseteq> set (concat chunks)"
    by (auto simp: chunks_trace_tasks)
  moreover have "length (chunks_trace chunks) = 2 * length (concat chunks)"
    by (induction chunks) (auto simp: chunks_trace_def)
  ultimately show "\<exists>tr. trace st' = trace st @ tr \<and> dispatched_tasks tr = tasks \<and> collected_tasks tr = tasks
           \<and> set (map event_task tr) \<subseteq> set tasks \<and> length tr = 2 * length tasks"
    using t cc chunks_trace_tasks(1,2)[of chunks] by (intro exI[of _ "chunks_trace chunks"]) auto
qed

lemma executeParallelBatch_returns:
  assumes "0 < mc"
  shows "\<exists>rs st'. executeParallelBatch env mc tasks st = Some (rs, st')"
  using chunk_loop_returns[OF assms, of 0 tasks "[]"]
  by (auto simp: executeParallelBatch_def chunkTasks_def split: prod.splits)

lemma group_loop_Some:
  assumes "group_loop env mc groups (rs, st) = Some (rs', st')"
    and "\<forall>(p, ts) \<in> set groups. \<forall>t \<in> set ts. priority t = p"
  shows "\<exists>tr. trace st' = trace st @ tr
           \<and> dispatched_tasks tr = concat (map snd groups)
           \<and> collected_tasks tr = concat (map snd groups)
           \<and> map (priority \<circ> event_task) tr
               = concat (map (\<lambda>(p, ts). replicate (2 * length ts) p) groups)"
  using assms
proof (induction groups arbitrary: rs st)
  case Nil
  then show ?case by simp
next
  case (Cons g groups)
  obtain p ts where g: "g = (p, ts)" by (cases g)
  from Cons.prems(1) g obtain br st1 where
    e: "executeParallelBatch env mc ts st = Some (br, st1)"
    and l: "group_loop env mc groups (rs @ br, st1) = Some (rs', st')"
    by (auto simp: executeGroup_def split: option.splits)
  from executeParallelBatch_Some(3)[OF e] obtain tr1 where
    t1: "trace st1 = trace st @ tr1" "dispatched_tasks tr1 = ts" "collected_tasks tr1 = ts"
      "set (map event_task tr1) \<subseteq> set ts" "length tr1 = 2 * length ts"
    by blast
  from Cons.prems(2) g have pts: "\<forall>t \<in> set ts. priority t = p"
    and rest: "\<forall>(p, ts) \<in> set groups. \<forall>t \<in> set ts. priority t = p"
    by auto
  from Cons.IH[OF l rest] obtain tr2 where
    t2: "trace st' = trace st1 @ tr2" "dispatched_tasks tr2 = concat (map snd groups)"
      "collected_tasks tr2 = concat (map snd groups)"
      "map (priority \<circ> event_task) tr2
         = concat (map (\<lambda>(p, ts). replicate (2 * length ts) p) groups)"
    by blast
  have "\<forall>e \<in> set tr1. priority (event_task e) = p"
    using t1(4) pts by auto
  then have "map (priority \<circ> event_task) tr1 = replicate (length tr1) p"
    by (simp add: map_replicate_const[symmetric] cong: map_cong)
  with t1 t2 g show ?case
    by (intro exI[of _ "tr1 @ tr2"]) (simp add: comp_def)
qed

lemma groupByPriority_priorities:
  "\<forall>(p, ts) \<in> set (groupByPriority tasks). \<forall>t \<in> set ts. priority t = p"
  by (auto simp: groupByPriority_def Let_def split: if_splits)

lemma groupByPriority_tasks:
  "concat (map snd (groupByPriority tasks))
     = filter (\<lambda>t. priority t = High) tasks @ filter (\<lambda>t. priority t = Medium) tasks
       @ filter (\<lambda>t. priority t = Low) tasks"
  by (simp add: groupByPriority_def Let_def)

lemma groupByPriority_sorted:
  "sorted (map prio_rank (concat (map (\<lambda>(p, ts). replicate (2 * length ts) p) (groupByPriority tasks))))"
  by (simp add: groupByPriority_def Let_def sorted_append)

lemma group_loop_returns:
  assumes "0 < mc"
  shows "\<exists>r. group_loop env mc groups acc = Some r"
proof (induction groups arbitrary: acc)
  case Nil
  then show ?case by simp
next
  case (Cons g groups)
  obtain p ts where g: "g = (p, ts)" by (cases g)
  obtain rs st where acc: "acc = (rs, st)" by (cases acc)
  from executeParallelBatch_returns[OF assms, of env ts st] obtain br st1
    where "executeParallelBatch env mc ts st = Some (br, st1)" by blast
  with Cons.IH[of "(rs @ br, st1)"] g acc show ?case
    by (simp add: executeGroup_def)
qed

lemma sorted_map_nth_strict:
  assumes "sorted (map f xs)" "i < length xs" "j < length xs" "f (xs ! i) < f (xs ! j)"
  shows "i < j"
proof (rule ccontr)
  assume "\<not> i < j"
  then have "j \<le> i" by simp
  with assms(1,2) have "map f xs ! j \<le> map f xs ! i"
    by (simp add: sorted_iff_nth_mono del: nth_map)
  with assms(2-) show False by simp
qed

lemma executeBatch_trace:
  assumes "executeBatch env mc tasks initial_state = Some (rs, st)"
  shows "dispatched_tasks (trace st) = concat (map snd (groupByPriority tasks))"
    and "collected_tasks (trace st) = concat (map snd (groupByPriority tasks))"
    and "sorted (map (prio_rank \<circ> priority \<circ> event_task) (trace st))"
proof -
  from group_loop_Some[OF assms[unfolded executeBatch_def] groupByPriority_priorities]
  obtain tr where tr: "trace st = trace initial_state @ tr"
    "dispatched_tasks tr = concat (map snd (groupByPriority tasks))"
    "collected_tasks tr = concat (map snd (groupByPriority tasks))"
    "map (priority \<circ> event_task) tr
       = concat (map (\<lambda>(p, ts). replicate (2 * length ts) p) (groupByPriority tasks))"
    by blast
  then have eq: "trace st = tr" by (simp add: initial_state_def)
  show "dispatched_tasks (trace st) = concat (map snd (groupByPriority tasks))"
    "collected_tasks (trace st) = concat (map snd (groupByPriority tasks))"
    using tr eq by simp_all
  have "map (prio_rank \<circ> priority \<circ> event_task) tr = map prio_rank (map (priority \<circ> event_task) tr)"
    by simp
  also have "sorted \<dots>" unfolding tr(4) by (rule groupByPriority_sorted)
  finally show "sorted (map (prio_rank \<circ> priority \<circ> event_task) (trace st))"
    using eq by simp
qed

lemma run_chunk_nth:
  "i < length ts \<Longrightarrow> run_chunk env n ts ! i = processResult (ts ! i) (executeTask env (n + i) (ts ! i))"
  by (simp add: run_chunk_def nth_enumerate_eq)

lemma executeParallelBatch_never_returns:
  assumes "maxConcurrent \<le> 0" and "tasks \<noteq> []"
  shows "executeParallelBatch env maxConcurrent tasks st = None"
proof -
  from assms have "chunk_loop tasks maxConcurrent 0 [] = None"
    by (intro chunk_loop_diverges) auto
  then show ?thesis by (simp add: executeParallelBatch_def chunkTasks_def)
qed
subsection \<open>One result per task\<close>

text \<open>
  C1 (as amended: the limit is positive). For every batch of tasks, every scheduler state
  and every positive concurrency limit, \<open>executeParallelBatch\<close> returns; and whenever it
  returns, it returns exactly one result per submitted task: the result list is as long
  as the task list, the results' identifiers are the tasks' identifiers in the same
  order, and when the identifiers of the batch are unique every result's identifier is
  the identifier of exactly one submitted task.
\<close>

theorem executeParallelBatch_one_result_per_task:
  "(0 < maxConcurrent \<longrightarrow>
      (\<exists>results st'. executeParallelBatch env maxConcurrent tasks st = Some (results, st'))) \<and>
   (\<forall>results st'.
      executeParallelBatch env maxConcurrent tasks st = Some (results, st') \<longrightarrow>
        length results = length tasks \<and>
        map result_id results = map task_id tasks \<and>
        (distinct (map task_id tasks) \<longrightarrow>
           (\<forall>r \<in> set results. \<exists>!t. t \<in> set tasks \<and> task_id t = result_id r)))"
proof (intro conjI impI allI ballI)
  assume "0 < maxConcurrent"
  then show "\<exists>results st'. executeParallelBatch env maxConcurrent tasks st = Some (results, st')"
    by (rule executeParallelBatch_returns)
next
  fix results st'
  assume ex: "executeParallelBatch env maxConcurrent tasks st = Some (results, st')"
  show ids: "map result_id results = map task_id tasks"
    using executeParallelBatch_Some(1)[OF ex] by (simp add: run_chunk_ids)
  then show "length results = length tasks"
    by (rule map_eq_imp_length_eq)
  fix r
  assume d: "distinct (map task_id tasks)" and r: "r \<in> set results"
  from r have "result_id r \<in> set (map task_id tasks)"
    unfolding ids[symmetric] by simp
  then obtain t where t: "t \<in> set tasks" "task_id t = result_id r" by auto
  moreover have "t' = t" if "t' \<in> set tasks" "task_id t' = result_id r" for t'
    using d t that by (auto simp: distinct_map inj_on_def)
  ultimately show "\<exists>!t. t \<in> set tasks \<and> task_id t = result_id r" by blast
qed

text \<open>The batch \<open>a, b, c\<close> with limit 2: three results, identified as the tasks are.\<close>

theorem executeParallelBatch_one_result_per_task_witness:
  "(0::int) < 2 \<and> distinct (map task_id [task_a, task_b, task_c]) \<and>
   (\<exists>results st'.
      executeParallelBatch example_env 2 [task_a, task_b, task_c] initial_state = Some (results, st') \<and>
      length results = 3 \<and>
      map result_id results = [''generate-a'', ''generate-b'', ''generate-c''] \<and>
      (\<forall>r \<in> set results. \<exists>!t. t \<in> set [task_a, task_b, task_c] \<and> task_id t = result_id r))"
proof -
  have d: "distinct (map task_id [task_a, task_b, task_c])"
    by (simp add: task_a_def task_b_def task_c_def)
  have ids: "map task_id [task_a, task_b, task_c] = [''generate-a'', ''generate-b'', ''generate-c'']"
    by (simp add: task_a_def task_b_def task_c_def)
  note inst = executeParallelBatch_one_result_per_task
                [of 2 example_env "[task_a, task_b, task_c]" initial_state]
  from inst obtain results st' where
    ex: "executeParallelBatch example_env 2 [task_a, task_b, task_c] initial_state = Some (results, st')"
    by auto
  with inst d have
    "length results = length [task_a, task_b, task_c]"
    "map result_id results = map task_id [task_a, task_b, task_c]"
    "\<forall>r \<in> set results. \<exists>!t. t \<in> set [task_a, task_b, task_c] \<and> task_id t = result_id r"
    by blast+
  with ex d ids show ?thesis by auto
qed

text \<open>
  With the limit 0 the loop of \<open>chunkTasks\<close> never advances: on the one-task batch the
  scheduler does not return at all, so there is no result list of length 1.
\<close>

theorem executeParallelBatch_zero_limit_counterexample:
  "\<not> (\<exists>results st'.
        executeParallelBatch example_env 0 [task_a] initial_state = Some (results, st') \<and>
        length results = length [task_a])"
proof -
  have "chunk_loop [task_a] 0 0 [] = None"
    by (rule chunk_loop_diverges) simp_all
  then show ?thesis
    by (simp add: executeParallelBatch_def chunkTasks_def)
qed

subsection \<open>Priority groups run in the order high, medium, low\<close>

text \<open>
  C2. \<open>executeBatch\<close> processes the priority groups strictly in the order high, medium,
  low. With a positive limit it returns; and whenever it returns, the tasks dispatched
  are the high-priority tasks, then the medium ones, then the low ones (each group in
  submission order), every dispatched task is collected, and in the trace every event
  (dispatch or collection) of a task of higher priority comes before every event of a
  task of lower priority: no medium or low task is dispatched before every high task has
  been dispatched and collected.
\<close>

theorem executeBatch_priority_order:
  "(0 < maxConcurrent \<longrightarrow> (\<exists>results st. executeBatch env maxConcurrent tasks initial_state = Some (results, st))) \<and>
   (\<forall>results st. executeBatch env maxConcurrent tasks initial_state = Some (results, st) \<longrightarrow>
      dispatched_tasks (trace st)
        = filter (\<lambda>t. priority t = High) tasks @ filter (\<lambda>t. priority t = Medium) tasks
          @ filter (\<lambda>t. priority t = Low) tasks \<and>
      collected_tasks (trace st) = dispatched_tasks (trace st) \<and>
      (\<forall>i j. i < length (trace st) \<and> j < length (trace st) \<and>
             prio_rank (priority (event_task (trace st ! i)))
               < prio_rank (priority (event_task (trace st ! j))) \<longrightarrow> i < j))"
proof (intro conjI impI allI)
  assume "0 < maxConcurrent"
  from group_loop_returns[OF this, of env "groupByPriority tasks" "([], initial_state)"]
  show "\<exists>results st. executeBatch env maxConcurrent tasks initial_state = Some (results, st)"
    by (auto simp: executeBatch_def)
next
  fix results st
  assume ex: "executeBatch env maxConcurrent tasks initial_state = Some (results, st)"
  note tr = executeBatch_trace[OF ex]
  show "dispatched_tasks (trace st)
        = filter (\<lambda>t. priority t = High) tasks @ filter (\<lambda>t. priority t = Medium) tasks
          @ filter (\<lambda>t. priority t = Low) tasks"
    using tr(1) by (simp add: groupByPriority_tasks)
  show "collected_tasks (trace st) = dispatched_tasks (trace st)"
    using tr(1,2) by simp
  fix i j
  assume "i < length (trace st) \<and> j < length (trace st) \<and>
             prio_rank (priority (event_task (trace st ! i)))
               < prio_rank (priority (event_task (trace st ! j)))"
  then show "i < j"
    using sorted_map_nth_strict[OF tr(3), of i j] by simp
qed

text \<open>The batch \<open>a\<close> (high), \<open>b\<close> (low), \<open>c\<close> (medium) with limit 2: the collection of
  \<open>a\<close> (position 1) precedes the dispatch of \<open>b\<close> (position 4).\<close>

theorem executeBatch_priority_order_witness:
  "(0::int) < 2 \<and>
   (\<exists>results st.
      executeBatch example_env 2 [task_a, task_b, task_c] initial_state = Some (results, st) \<and>
      trace st = [Dispatched task_a, Collected task_a, Dispatched task_c, Collected task_c,
                  Dispatched task_b, Collected task_b] \<and>
      1 < length (trace st) \<and> 4 < length (trace st) \<and>
      prio_rank (priority (event_task (trace st ! 1))) < prio_rank (priority (event_task (trace st ! 4))) \<and>
      (1::nat) < 4 \<and>
      dispatched_tasks (trace st) = [task_a, task_c, task_b])"
proof -
  let ?tr = "[Dispatched task_a, Collected task_a, Dispatched task_c, Collected task_c,
                  Dispatched task_b, Collected task_b]"
  from executeBatch_priority_order[of 2 example_env "[task_a, task_b, task_c]"]
  obtain results st where
    ex: "executeBatch example_env 2 [task_a, task_b, task_c] initial_state = Some (results, st)"
    by auto
  have tr: "trace st = ?tr"
    using ex
    by (simp add: executeBatch_def groupByPriority_def executeGroup_def executeParallelBatch_def
      chunkTasks_def chunk_loop.simps slice_def run_chunk_def task_a_def task_b_def task_c_def
      initial_state_def) auto
  have h: "1 < length (trace st) \<and> 4 < length (trace st) \<and>
      prio_rank (priority (event_task (trace st ! 1))) < prio_rank (priority (event_task (trace st ! 4)))"
    by (simp add: tr task_a_def task_b_def)
  from executeBatch_priority_order[of 2 example_env "[task_a, task_b, task_c]"] ex
  have "dispatched_tasks (trace st) = [task_a, task_c, task_b]"
    by (simp add: task_a_def task_b_def task_c_def)
  with ex tr h show ?thesis by simp
qed

subsection \<open>A failing remote call becomes a failed result\<close>

text \<open>
  What the scheduler reports for a task whose remote call throws, in every run that
  returns: the task's identifier, no success, \<open>data = null\<close> and a truthy error. For a
  thrown value other than \<open>null\<close> and \<open>undefined\<close> the error is its \<open>message\<close> when that is
  truthy and \<open>AI call failed\<close> otherwise, with the measured duration. For \<open>null\<close> and
  \<open>undefined\<close> the \<open>catch\<close> block raises, \<open>Promise.allSettled\<close> captures the rejection, and
  the error is the text of the engine's \<open>TypeError\<close> (\<open>Unknown error\<close> should that be empty),
  with duration 0.
\<close>

lemma failed_call_result:
  assumes ex: "executeParallelBatch env maxConcurrent tasks st = Some (results, st')"
    and i: "i < length tasks"
    and c: "callAI env (calls st + i) (tasks ! i) = Rejects thrown"
  shows "length results = length tasks"
    and "result_id (results ! i) = task_id (tasks ! i)"
    and "success (results ! i) = False"
    and "data (results ! i) = JNull"
    and "truthy (error (results ! i))"
    and "error (results ! i) =
           (case thrown of
              ThrownValue message \<Rightarrow> js_or message (JString ''AI call failed'')
            | _ \<Rightarrow> js_or (JString (typeError_message env thrown)) (JString ''Unknown error''))"
    and "duration (results ! i) =
           (case thrown of ThrownValue message \<Rightarrow> elapsed env (calls st + i) (tasks ! i)
            | _ \<Rightarrow> 0)"
proof -
  note rs = executeParallelBatch_Some(1)[OF ex]
  show "length results = length tasks"
    using rs run_chunk_ids[of env "calls st" tasks] by (metis length_map)
  have r: "results ! i = processResult (tasks ! i) (executeTask env (calls st + i) (tasks ! i))"
    using rs i by (simp add: run_chunk_nth)
  show "result_id (results ! i) = task_id (tasks ! i)" "success (results ! i) = False"
    "data (results ! i) = JNull"
    using c by (auto simp: r processResult_def executeTask_def split: js_thrown.splits)
  show e: "error (results ! i) =
           (case thrown of
              ThrownValue message \<Rightarrow> js_or message (JString ''AI call failed'')
            | _ \<Rightarrow> js_or (JString (typeError_message env thrown)) (JString ''Unknown error''))"
    using c
    by (auto simp: r processResult_def executeTask_def reason_message_def split: js_thrown.splits)
  show "truthy (error (results ! i))"
    unfolding e by (auto simp: js_or_def split: js_thrown.splits)
  show "duration (results ! i) =
           (case thrown of ThrownValue message \<Rightarrow> elapsed env (calls st + i) (tasks ! i)
            | _ \<Rightarrow> 0)"
    using c by (auto simp: r processResult_def executeTask_def split: js_thrown.splits)
qed

text \<open>
  C3 (the code misses the case of a \<open>null\<close> or \<open>undefined\<close> rejection). The collaborator's
  promise rejects with \<open>null\<close>, which carries no message. The scheduler returns normally
  with a failed result and \<open>data = null\<close>, but the error description is neither a message
  of the collaborator nor one of the two fallback strings of the code: it is the text
  of the \<open>TypeError\<close> that the \<open>catch\<close> block of \<open>executeTask\<close> raises at \<open>error.message\<close>,
  and the measured duration is lost.
\<close>

theorem null_rejection_reports_engine_text:
  "executeParallelBatch null_env 5 [task_a] initial_state =
     Some ([\<lparr>result_id = ''generate-a'', success = False, data = JNull,
              error = JString (''Cannot read properties of null (reading '' @ [CHR 0x27]
                               @ ''message'' @ [CHR 0x27] @ '')''),
              duration = 0\<rparr>],
           \<lparr>calls = 1, trace = [Dispatched task_a, Collected task_a]\<rparr>) \<and>
   callAI null_env 0 task_a = Rejects ThrownNull \<and>
   JString (''Cannot read properties of null (reading '' @ [CHR 0x27] @ ''message''
            @ [CHR 0x27] @ '')'') \<noteq> JString ''AI call failed'' \<and>
   JString (''Cannot read properties of null (reading '' @ [CHR 0x27] @ ''message''
            @ [CHR 0x27] @ '')'') \<noteq> JString ''Unknown error''"
  by (simp add: executeParallelBatch_def chunkTasks_def chunk_loop.simps slice_def run_chunk_def
      executeTask_def processResult_def reason_message_def js_or_def null_env_def v8_message_def
      initial_state_def task_a_def)
section \<open>Properties of the performance tracker\<close>

lemma slice_last:
  "k \<le> int (length xs) \<Longrightarrow> 0 < k \<Longrightarrow> slice xs (- k) (int (length xs)) = drop (length xs - nat k) xs"
  by (auto simp: slice_def Let_def max_def min_def nat_diff_distrib')

lemma metrics_saveToStorage [simp]: "metrics (saveToStorage w t) = metrics t"
  by (simp add: saveToStorage_def Let_def)







subsection \<open>The metrics window\<close>



subsection \<open>Averages\<close>



section \<open>Properties of the answer-engine optimizer\<close>

lemma first_answer_skip:
  assumes "\<forall>q \<in> set before.
             \<not> (40 \<le> length (stripTags q) \<and> length (stripTags q) \<le> 300 \<and>
                js_includes (toLowerCase (stripTags q)) (toLowerCase keyword) \<and>
                70 \<le> scoreParagraphForAEO (stripTags q) keyword)"
  shows "first_answer (before @ rest) keyword = first_answer rest keyword"
  using assms by (induction before) (auto simp: Let_def)

text \<open>
  C9 (as amended: a digit adds 5 points). A paragraph of 50 characters that contains the
  primary keyword, starts with it (both ignoring case) and matches the definitional
  pattern collects \<open>50 + 20 + 15 + 10 + 15 = 110\<close> points when it holds no digit and
  \<open>110 + 5 = 115\<close> when it does; either way \<open>scoreParagraphForAEO\<close> clamps them to 100. When it is the stripped text of the first
  paragraph of a page that passes the tests of \<open>createDirectAnswer\<close>, that function returns
  it as the direct-answer snippet, with score 100.
\<close>

theorem aeo_fifty_char_definition_paragraph:
  assumes "length paragraph = 50"
    and "js_includes (toLowerCase paragraph) (toLowerCase keyword)"
    and "startsWith (toLowerCase paragraph) (toLowerCase keyword)"
    and "hasDefinitionPattern paragraph"
  shows "paragraph_points paragraph keyword = (if hasNumbersOrData paragraph then 115 else 110) \<and>
         scoreParagraphForAEO paragraph keyword = 100 \<and>
         (\<forall>content before para after.
            paragraphs_of content = before @ para # after \<and>
            stripTags para = paragraph \<and>
            (\<forall>q \<in> set before.
               \<not> (40 \<le> length (stripTags q) \<and> length (stripTags q) \<le> 300 \<and>
                  js_includes (toLowerCase (stripTags q)) (toLowerCase keyword) \<and>
                  70 \<le> scoreParagraphForAEO (stripTags q) keyword)) \<longrightarrow>
            createDirectAnswer content keyword =
              Some \<lparr>snippet_type = Paragraph, snippet_content = paragraph, snippet_score = 100,
                     optimization = ''Direct answer optimized for AI Overview''\<rparr>)"
proof -
  have points: "paragraph_points paragraph keyword = (if hasNumbersOrData paragraph then 115 else 110)"
    using assms by (simp add: paragraph_points_def)
  then have score: "scoreParagraphForAEO paragraph keyword = 100"
    by (simp add: scoreParagraphForAEO_def)
  have "createDirectAnswer content keyword =
          Some \<lparr>snippet_type = Paragraph, snippet_content = paragraph, snippet_score = 100,
                 optimization = ''Direct answer optimized for AI Overview''\<rparr>"
    if ps: "paragraphs_of content = before @ para # after"
      and clean: "stripTags para = paragraph"
      and skip: "\<forall>q \<in> set before.
               \<not> (40 \<le> length (stripTags q) \<and> length (stripTags q) \<le> 300 \<and>
                  js_includes (toLowerCase (stripTags q)) (toLowerCase keyword) \<and>
                  70 \<le> scoreParagraphForAEO (stripTags q) keyword)"
    for content before para after
  proof -
    have "createDirectAnswer content keyword = first_answer (para # after) keyword"
      unfolding createDirectAnswer_def ps by (rule first_answer_skip[OF skip])
    also have "\<dots> = Some \<lparr>snippet_type = Paragraph, snippet_content = paragraph, snippet_score = 100,
                 optimization = ''Direct answer optimized for AI Overview''\<rparr>"
      using assms(1,2) score by (simp add: clean Let_def)
    finally show ?thesis .
  qed
  with points score show ?thesis by blast
qed

text \<open>The example page: its first paragraph is too short, its second is the 50-character
  definition of the keyword \<open>seo\<close>.\<close>

lemma example_paragraphs:
  "paragraphs_of example_content
     = [''<p>Intro.''] @ ''<p>SEO is the practice of making pages easier to find'' # []"
  by (simp add: paragraphs_of_def example_content_def js_split_def trim_def is_space_def)

theorem aeo_fifty_char_definition_paragraph_witness:
  "length ''SEO is the practice of making pages easier to find'' = 50 \<and>
   js_includes (toLowerCase ''SEO is the practice of making pages easier to find'') (toLowerCase ''seo'') \<and>
   startsWith (toLowerCase ''SEO is the practice of making pages easier to find'') (toLowerCase ''seo'') \<and>
   hasDefinitionPattern ''SEO is the practice of making pages easier to find'' \<and>
   paragraph_points ''SEO is the practice of making pages easier to find'' ''seo'' = 110 \<and>
   scoreParagraphForAEO ''SEO is the practice of making pages easier to find'' ''seo'' = 100 \<and>
   createDirectAnswer example_content ''seo'' =
     Some \<lparr>snippet_type = Paragraph,
            snippet_content = ''SEO is the practice of making pages easier to find'',
            snippet_score = 100,
            optimization = ''Direct answer optimized for AI Overview''\<rparr>"
proof -
  let ?p = "''SEO is the practice of making pages easier to find''"
  have low: "toLowerCase ?p = ''seo is the practice of making pages easier to find''"
    "toLowerCase ''seo'' = ''seo''" "toLowerCase ''Intro.'' = ''intro.''"
    by (simp_all add: toLowerCase_def toLower_char_def)
  have h1: "length ?p = 50" by simp
  have h2: "js_includes (toLowerCase ?p) (toLowerCase ''seo'')"
    unfolding low by (simp add: js_includes_def)
  have h3: "startsWith (toLowerCase ?p) (toLowerCase ''seo'')"
    unfolding low by (simp add: startsWith_def)
  have h4: "hasDefinitionPattern ?p"
    unfolding hasDefinitionPattern_def Let_def low
    by (simp add: js_includes_def is_line_terminator_def)
  have h5: "\<not> hasNumbersOrData ?p"
    by (simp add: hasNumbersOrData_def)
  have clean: "stripTags ''<p>SEO is the practice of making pages easier to find'' = ?p"
    "stripTags ''<p>Intro.'' = ''Intro.''"
    by simp_all
  note inst = aeo_fifty_char_definition_paragraph[OF h1 h2 h3 h4]
  from inst h5 have c1: "paragraph_points ?p ''seo'' = 110" by simp
  from inst have c2: "scoreParagraphForAEO ?p ''seo'' = 100" by simp
  from inst have "paragraphs_of example_content = [''<p>Intro.''] @ ''<p>SEO is the practice of making pages easier to find'' # [] \<and>
            stripTags ''<p>SEO is the practice of making pages easier to find'' = ?p \<and>
            (\<forall>q \<in> set [''<p>Intro.''].
               \<not> (40 \<le> length (stripTags q) \<and> length (stripTags q) \<le> 300 \<and>
                  js_includes (toLowerCase (stripTags q)) (toLowerCase ''seo'') \<and>
                  70 \<le> scoreParagraphForAEO (stripTags q) ''seo'')) \<longrightarrow>
            createDirectAnswer example_content ''seo'' =
              Some \<lparr>snippet_type = Paragraph, snippet_content = ?p, snippet_score = 100,
                     optimization = ''Direct answer optimized for AI Overview''\<rparr>"
    by blast
  moreover have "\<forall>q \<in> set [''<p>Intro.''].
               \<not> (40 \<le> length (stripTags q) \<and> length (stripTags q) \<le> 300 \<and>
                  js_includes (toLowerCase (stripTags q)) (toLowerCase ''seo'') \<and>
                  70 \<le> scoreParagraphForAEO (stripTags q) ''seo'')"
    by (simp add: clean)
  ultimately have c3: "createDirectAnswer example_content ''seo'' =
              Some \<lparr>snippet_type = Paragraph, snippet_content = ?p, snippet_score = 100,
                     optimization = ''Direct answer optimized for AI Overview''\<rparr>"
    using example_paragraphs clean(1) by blast
  from h1 h2 h3 h4 c1 c2 c3 show ?thesis by blast
qed

text \<open>
  A paragraph of 50 characters that starts with the keyword, matches the definitional
  pattern and holds the digit \<open>3\<close>: it collects 115 points, not 110.
\<close>

theorem aeo_digit_paragraph_counterexample:
  "length ''SEO is one of the 3 pillars of web ranking success'' = 50 \<and>
   js_includes (toLowerCase ''SEO is one of the 3 pillars of web ranking success'')
     (toLowerCase ''seo'') \<and>
   startsWith (toLowerCase ''SEO is one of the 3 pillars of web ranking success'')
     (toLowerCase ''seo'') \<and>
   hasDefinitionPattern ''SEO is one of the 3 pillars of web ranking success'' \<and>
   paragraph_points ''SEO is one of the 3 pillars of web ranking success'' ''seo'' = 115 \<and>
   paragraph_points ''SEO is one of the 3 pillars of web ranking success'' ''seo'' \<noteq> 110 \<and>
   scoreParagraphForAEO ''SEO is one of the 3 pillars of web ranking success'' ''seo'' = 100"
  by code_simp
section \<open>Properties of the internal-linking engine\<close>

subsection \<open>Topic clusters\<close>

lemma cluster_loop_inv:
  assumes "\<forall>c \<in> set cs. claimed_ids c \<subseteq> processed" and "pillars_fresh cs"
  shows "(\<forall>c \<in> set (fst (cluster_loop pages ps (cs, processed))).
            claimed_ids c \<subseteq> snd (cluster_loop pages ps (cs, processed))) \<and>
         pillars_fresh (fst (cluster_loop pages ps (cs, processed)))"
  using assms
proof (induction ps arbitrary: cs processed)
  case Nil
  then show ?case by simp
next
  case (Cons page rest)
  show ?case
  proof (cases "page_id page \<notin> processed \<and> 2 \<le> length (findRelatedPages page pages)")
    case False
    then show ?thesis using Cons.IH[OF Cons.prems] by (auto simp: Let_def)
  next
    case True
    let ?c = "\<lparr>pillarPage = page, clusterPages = findRelatedPages page pages,
                linkDensity = calculateClusterLinkDensity page (findRelatedPages page pages),
                topicRelevance = calculateTopicRelevance page (findRelatedPages page pages)\<rparr>"
    let ?processed = "processed \<union> {page_id page} \<union> set (map page_id (findRelatedPages page pages))"
    have 1: "\<forall>c \<in> set (cs @ [?c]). claimed_ids c \<subseteq> ?processed"
      using Cons.prems(1) by (auto simp: claimed_ids_def)
    have 2: "pillars_fresh (cs @ [?c])"
      using Cons.prems True by (auto simp: pillars_fresh_def sorted_wrt_append)
    from Cons.IH[OF 1 2] True show ?thesis by (simp add: Let_def)
  qed
qed

lemma emitted_pillars_fresh: "pillars_fresh (emitted_clusters pages)"
  using cluster_loop_inv[of "[]" "{}" pages pages]
  by (simp add: emitted_clusters_def pillars_fresh_def)

text \<open>
  C4 (as amended: only the pillar is exclusive). \<open>identifyTopicClusters\<close> never makes a
  page that an earlier-emitted cluster claimed, as pillar or as member, the pillar of a
  later-emitted cluster; in particular no two clusters of the result have the same
  pillar. (A claimed page can still be a member of later clusters: \<open>findRelatedPages\<close>
  looks at all pages.)
\<close>

theorem claimed_page_never_later_pillar:
  "(\<forall>i j. i < j \<and> j < length (emitted_clusters pages) \<longrightarrow>
       page_id (pillarPage (emitted_clusters pages ! j)) \<notin> claimed_ids (emitted_clusters pages ! i)) \<and>
   distinct (map (\<lambda>c. page_id (pillarPage c)) (identifyTopicClusters pages))"
proof (intro conjI allI impI)
  fix i j
  assume "i < j \<and> j < length (emitted_clusters pages)"
  then show "page_id (pillarPage (emitted_clusters pages ! j)) \<notin> claimed_ids (emitted_clusters pages ! i)"
    using emitted_pillars_fresh[of pages]
    by (auto simp: pillars_fresh_def sorted_wrt_iff_nth_less)
next
  let ?cs = "emitted_clusters pages"
  let ?f = "\<lambda>c. page_id (pillarPage c)"
  have "?f (?cs ! i) \<noteq> ?f (?cs ! j)" if "i < j" "j < length ?cs" for i j
  proof -
    from emitted_pillars_fresh[of pages] that
    have "?f (?cs ! j) \<notin> claimed_ids (?cs ! i)"
      by (auto simp: pillars_fresh_def sorted_wrt_iff_nth_less)
    moreover have "?f (?cs ! i) \<in> claimed_ids (?cs ! i)"
      by (simp add: claimed_ids_def)
    ultimately show ?thesis by metis
  qed
  then have "distinct (map ?f ?cs)"
    unfolding distinct_conv_nth
    by (metis length_map nat_neq_iff nth_map)
  then have "card (set (map ?f ?cs)) = length (map ?f ?cs)"
    by (rule distinct_card)
  then have "card (set (map ?f (identifyTopicClusters pages))) = length (map ?f (identifyTopicClusters pages))"
    by (simp add: identifyTopicClusters_def)
  then show "distinct (map ?f (identifyTopicClusters pages))"
    by (rule card_distinct)
qed

text \<open>The four example pages: what the engine computes for them.\<close>

lemma example_keywords:
  "extractKeywords ''Apple Banana'' = [''apple'', ''banana'']"
  "extractKeywords ''Apple Cherry'' = [''apple'', ''cherry'']"
  "extractKeywords ''Banana Cherry'' = [''banana'', ''cherry'']"
  "extractKeywords ''Cherry Desserts'' = [''cherry'', ''desserts'']"
  by code_simp+

lemma example_related:
  "findRelatedPages page_a [page_a, page_b, page_c, page_d] = [page_b, page_c]"
  "findRelatedPages page_d [page_a, page_b, page_c, page_d] = [page_b, page_c]"
  by (simp_all add: findRelatedPages_def page_a_def page_b_def page_c_def page_d_def example_keywords Let_def slice_def)

lemma example_scores:
  "calculateTopicRelevance page_a [page_b, page_c] = 20"
  "calculateTopicRelevance page_d [page_b, page_c] = 20"
  "calculateClusterLinkDensity page_a [page_b, page_c] = 1 / 6"
  "calculateClusterLinkDensity page_d [page_b, page_c] = 1 / 10"
  by (simp_all add: calculateTopicRelevance_def calculateClusterLinkDensity_def page_a_def page_b_def page_c_def page_d_def example_keywords Let_def)

lemma example_ids: "page_id page_a = ''a''" "page_id page_b = ''b''" "page_id page_c = ''c''" "page_id page_d = ''d''"
  by (simp_all add: page_a_def page_b_def page_c_def page_d_def)

lemma example_emitted: "emitted_clusters [page_a, page_b, page_c, page_d] = [cluster_a, cluster_d]"
  by (simp add: emitted_clusters_def example_related example_scores example_ids Let_def cluster_a_def cluster_d_def)

text \<open>
  Page \<open>b\<close> is a member of the cluster of \<open>a\<close> and, again, of the later cluster of \<open>d\<close>.
\<close>

theorem cluster_members_shared_counterexample:
  "emitted_clusters [page_a, page_b, page_c, page_d] = [cluster_a, cluster_d] \<and>
   identifyTopicClusters [page_a, page_b, page_c, page_d] = [cluster_a, cluster_d] \<and>
   page_b \<in> set (clusterPages cluster_a) \<and>
   page_b \<in> set (clusterPages cluster_d)"
  by (simp add: identifyTopicClusters_def example_emitted) (simp add: cluster_a_def cluster_d_def)

theorem claimed_page_never_later_pillar_witness:
  "(0::nat) < 1 \<and> 1 < length (emitted_clusters [page_a, page_b, page_c, page_d]) \<and>
   page_id (pillarPage (emitted_clusters [page_a, page_b, page_c, page_d] ! 1))
     \<notin> claimed_ids (emitted_clusters [page_a, page_b, page_c, page_d] ! 0) \<and>
   distinct (map (\<lambda>c. page_id (pillarPage c)) (identifyTopicClusters [page_a, page_b, page_c, page_d]))"
proof -
  have "(0::nat) < 1 \<and> 1 < length (emitted_clusters [page_a, page_b, page_c, page_d])"
    by (simp add: example_emitted)
  with claimed_page_never_later_pillar[of "[page_a, page_b, page_c, page_d]"]
  show ?thesis by blast
qed

subsection \<open>Keyword offsets, sentences and the guard against nearby links\<close>

text \<open>\<open>findKeywordPositions\<close> returns on a text that never reads the keyword and on a text
  that reads it at one offset only, and whatever it returns are offsets at which the text
  reads the lowercased keyword.\<close>

lemma indexOf_from_0 [simp]: "indexOf_from s sub 0 = indexOf s sub"
  by (cases "indexOf s sub") (simp_all add: indexOf_from_def)

lemma findKeywordPositions_none:
  assumes "\<forall>j. \<not> reads_at content (toLowerCase keyword) j"
  shows "findKeywordPositions content keyword = Some []"
proof -
  have "indexOf content (toLowerCase keyword) = None"
    using assms by (rule never_reads_indexOf)
  then have "indexOf_from content (toLowerCase keyword) 0 = None"
    by (simp only: indexOf_from_0)
  then show ?thesis
    unfolding findKeywordPositions_def by (subst positions_loop.simps) (simp only: option.case)
qed

lemma findKeywordPositions_once:
  assumes r: "reads_at content (toLowerCase keyword) pos"
    and u: "\<forall>j. reads_at content (toLowerCase keyword) j \<longrightarrow> j = pos"
    and ne: "keyword \<noteq> []"
  shows "findKeywordPositions content keyword = Some [pos]"
proof -
  let ?k = "toLowerCase keyword"
  have kne: "?k \<noteq> []" using ne by simp
  from reads_at_length[OF r kne] have le: "pos \<le> length content" by simp
  have "\<forall>j<pos. \<not> reads_at content ?k j"
  proof (intro allI impI notI)
    fix j assume "j < pos" and "reads_at content ?k j"
    from u[rule_format, OF this(2)] this(1) show False by simp
  qed
  with r le have "reads_at content ?k pos \<and> pos \<le> length content \<and>
      (\<forall>j<pos. \<not> reads_at content ?k j)" by (intro conjI)
  then have "indexOf content ?k = Some pos"
    unfolding indexOf_Some_iff .
  then have first: "indexOf_from content ?k 0 = Some pos"
    by (simp only: indexOf_from_0)
  have "\<forall>j. \<not> reads_at (drop (pos + length keyword) content) ?k j"
  proof (intro allI notI)
    fix j
    assume "reads_at (drop (pos + length keyword) content) ?k j"
    then have "reads_at content ?k (pos + length keyword + j)"
      unfolding reads_at_drop .
    from u[rule_format, OF this] ne show False by simp
  qed
  then have "indexOf (drop (pos + length keyword) content) ?k = None"
    by (rule never_reads_indexOf)
  then have rest: "indexOf_from content ?k (pos + length keyword) = None"
    by (simp add: indexOf_from_def)
  have "positions_loop content keyword (pos + length keyword) ([] @ [pos]) = Some [pos]"
    by (subst positions_loop.simps) (simp only: rest option.case append_Nil)
  then show ?thesis
    unfolding findKeywordPositions_def
    by (subst positions_loop.simps) (simp only: first option.case)
qed

lemma indexOf_from_reads:
  assumes "indexOf_from s sub start = Some found"
  shows "reads_at s sub found"
proof (cases "indexOf (drop start s) sub")
  case None
  with assms show ?thesis by (simp add: indexOf_from_def)
next
  case (Some i)
  with assms have f: "found = min start (length s) + i"
    by (simp add: indexOf_from_def)
  from Some have r: "reads_at (drop start s) sub i"
    unfolding indexOf_Some_iff by (rule conjunct1)
  show ?thesis
  proof (cases "start \<le> length s")
    case True
    from r have "reads_at s sub (start + i)" unfolding reads_at_drop .
    with True f show ?thesis by (simp add: min_def)
  next
    case False
    then have d: "drop start s = []" by simp
    from Some have "i \<le> length (drop start s)"
      unfolding indexOf_Some_iff by (elim conjE)
    with d have i0: "i = 0" by simp
    from r d have "sub = []" by (simp add: reads_at_def)
    with i0 f False show ?thesis by (simp add: reads_at_def)
  qed
qed

lemma positions_loop_reads:
  assumes ret: "positions_loop content keyword index positions = Some result"
  shows "(\<forall>p \<in> set positions. reads_at content (toLowerCase keyword) p) \<longrightarrow>
         (\<forall>p \<in> set result. reads_at content (toLowerCase keyword) p)"
proof (rule positions_loop.raw_induct[where P = "\<lambda>content keyword index positions result.
    (\<forall>p \<in> set positions. reads_at content (toLowerCase keyword) p) \<longrightarrow>
    (\<forall>p \<in> set result. reads_at content (toLowerCase keyword) p)", OF _ ret])
  fix f content keyword index positions result
  assume IH: "\<And>content keyword index positions result.
      f content keyword index positions = Some result \<Longrightarrow>
      (\<forall>p \<in> set positions. reads_at content (toLowerCase keyword) p) \<longrightarrow>
      (\<forall>p \<in> set result. reads_at content (toLowerCase keyword) p)"
    and body: "(case indexOf_from content (toLowerCase keyword) index of
        None \<Rightarrow> Some positions
      | Some found \<Rightarrow> f content keyword (found + length keyword) (positions @ [found]))
      = Some result"
  show "(\<forall>p \<in> set positions. reads_at content (toLowerCase keyword) p) \<longrightarrow>
        (\<forall>p \<in> set result. reads_at content (toLowerCase keyword) p)"
  proof (cases "indexOf_from content (toLowerCase keyword) index")
    case None
    with body show ?thesis by simp
  next
    case (Some found)
    with body have "f content keyword (found + length keyword) (positions @ [found]) = Some result"
      by simp
    from IH[OF this] indexOf_from_reads[OF Some] show ?thesis by simp
  qed
qed

lemma findKeywordPositions_reads:
  "findKeywordPositions content keyword = Some positions \<Longrightarrow> p \<in> set positions \<Longrightarrow>
   reads_at content (toLowerCase keyword) p"
  using positions_loop_reads[of content keyword 0 "[]" positions]
  by (simp add: findKeywordPositions_def)

text \<open>The matches of a keyword without metacharacters in a text that reads it never, or at
  one offset only.\<close>

lemma count_literal_none:
  assumes "\<forall>j. \<not> reads_at s (x # xs) j"
  shows "count_literal (x # xs) s = 0"
  using assms
proof (induction s)
  case Nil
  then show ?case by simp
next
  case (Cons c cs)
  from Cons.prems have "\<not> reads_at (c # cs) (x # xs) 0" by (rule spec)
  then have np: "\<not> prefix (x # xs) (c # cs)" unfolding reads_at_0 .
  have "\<forall>j. \<not> reads_at cs (x # xs) j"
  proof
    fix j
    from Cons.prems have "\<not> reads_at (c # cs) (x # xs) (Suc j)" by (rule spec)
    then show "\<not> reads_at cs (x # xs) j" unfolding reads_at_Cons_Suc .
  qed
  then have "count_literal (x # xs) cs = 0" by (rule Cons.IH)
  moreover have "count_literal (x # xs) (c # cs) = count_literal (x # xs) cs"
    by (subst count_literal.simps, rule if_not_P, rule np)
  ultimately show ?case by simp
qed

lemma count_literal_once:
  assumes "reads_at s (x # xs) p" and "\<forall>j. reads_at s (x # xs) j \<longrightarrow> j = p"
  shows "count_literal (x # xs) s = 1"
  using assms
proof (induction s arbitrary: p)
  case Nil
  then show ?case by (simp add: reads_at_def)
next
  case (Cons c cs)
  show ?case
  proof (cases "prefix (x # xs) (c # cs)")
    case True
    then have "reads_at (c # cs) (x # xs) 0" unfolding reads_at_0 .
    with Cons.prems(2) have p0: "0 = p" by (rule_tac mp, rule_tac spec)
    have "\<forall>j. \<not> reads_at (drop (length xs) cs) (x # xs) j"
    proof (rule allI, rule notI)
      fix j
      assume "reads_at (drop (length xs) cs) (x # xs) j"
      then have "reads_at cs (x # xs) (length xs + j)"
        unfolding reads_at_drop .
      then have "reads_at (c # cs) (x # xs) (Suc (length xs + j))"
        unfolding reads_at_Cons_Suc .
      with Cons.prems(2) have "Suc (length xs + j) = p" by (rule_tac mp, rule_tac spec)
      with p0 show False by simp
    qed
    then have "count_literal (x # xs) (drop (length xs) cs) = 0"
      by (rule count_literal_none)
    moreover have "count_literal (x # xs) (c # cs) =
        Suc (count_literal (x # xs) (drop (length xs) cs))"
      by (subst count_literal.simps, rule if_P, rule True)
    ultimately show ?thesis by simp
  next
    case False
    then have n0: "\<not> reads_at (c # cs) (x # xs) 0" unfolding reads_at_0 .
    have "p \<noteq> 0"
    proof
      assume "p = 0"
      with Cons.prems(1) n0 show False by simp
    qed
    then obtain p' where p': "p = Suc p'" by (cases p) simp_all
    from Cons.prems(1) have r: "reads_at cs (x # xs) p'"
      unfolding p' reads_at_Cons_Suc .
    have "\<forall>j. reads_at cs (x # xs) j \<longrightarrow> j = p'"
    proof (rule allI, rule impI)
      fix j
      assume "reads_at cs (x # xs) j"
      then have "reads_at (c # cs) (x # xs) (Suc j)" unfolding reads_at_Cons_Suc .
      with Cons.prems(2) have "Suc j = p" by (rule_tac mp, rule_tac spec)
      with p' show "j = p'" by simp
    qed
    with r have "count_literal (x # xs) cs = 1" by (rule Cons.IH)
    moreover have "count_literal (x # xs) (c # cs) = count_literal (x # xs) cs"
      by (subst count_literal.simps, rule if_not_P, rule False)
    ultimately show ?thesis by simp
  qed
qed

text \<open>
  The sentences of a text. A run of non-terminators followed by a run of terminators, up
  to the next non-terminator, is one sentence; and the text before it, when it ends with
  a terminator, has its own sentences, all ending where it ends at the latest.
\<close>

lemma sentences_from_sentence:
  assumes b: "body \<noteq> []" "\<forall>c \<in> set body. \<not> is_terminator c"
    and m: "marks \<noteq> []" "\<forall>c \<in> set marks. is_terminator c"
    and p: "post = [] \<or> \<not> is_terminator (hd post)"
  shows "sentences_from off (body @ marks @ post) =
           \<lparr>sentence_text = body @ marks, sentence_start = off,
             sentence_end = off + length body + length marks\<rparr>
           # sentences_from (off + length body + length marks) post"
proof -
  from b(1) obtain c cs where body: "body = c # cs" by (cases body) simp_all
  from m(1) obtain d ds where marks: "marks = d # ds" by (cases marks) simp_all
  have c: "\<not> is_terminator c" and cs: "\<And>x. x \<in> set cs \<Longrightarrow> \<not> is_terminator x"
    using b(2) body by simp_all
  have d: "is_terminator d" using m(2) marks by simp
  have ms: "\<And>x. x \<in> set marks \<Longrightarrow> is_terminator x" using m(2) by simp
  have t1: "takeWhile (\<lambda>d. \<not> is_terminator d) (cs @ marks @ post) = cs"
    using cs d by (simp add: takeWhile_append2 marks)
  have d1: "dropWhile (\<lambda>d. \<not> is_terminator d) (cs @ marks @ post) = marks @ post"
    using cs d by (simp add: dropWhile_append2 marks)
  have pt: "takeWhile is_terminator post = []" and pd: "dropWhile is_terminator post = post"
    using p by (cases post; simp)+
  have t2: "takeWhile is_terminator (marks @ post) = marks"
    using ms pt by (simp add: takeWhile_append2)
  have d2: "dropWhile is_terminator (marks @ post) = post"
    using ms pd by (simp add: dropWhile_append2)
  have "sentences_from off (c # (cs @ marks @ post)) =
          \<lparr>sentence_text = (c # cs) @ marks, sentence_start = off,
            sentence_end = off + length (c # cs) + length marks\<rparr>
          # sentences_from (off + length (c # cs) + length marks) post"
    by (subst sentences_from.simps) (simp add: c t1 d1 t2 d2 Let_def m(1))
  then show ?thesis by (simp add: body)
qed

lemma sentences_from_append:
  assumes "pre = [] \<or> is_terminator (last pre)" and "rest = [] \<or> \<not> is_terminator (hd rest)"
  shows "sentences_from off (pre @ rest) =
           sentences_from off pre @ sentences_from (off + length pre) rest"
  using assms(1)
proof (induction "length pre" arbitrary: pre off rule: less_induct)
  case less
  show ?case
  proof (cases pre)
    case Nil
    then show ?thesis by simp
  next
    case (Cons c cs)
    show ?thesis
    proof (cases "is_terminator c")
      case True
      have closed: "cs = [] \<or> is_terminator (last cs)"
        using less.prems Cons by (cases "cs = []") simp_all
      have "length cs < length pre" using Cons by simp
      from less.hyps[OF this closed, of "Suc off"]
      have "sentences_from (Suc off) (cs @ rest) =
          sentences_from (Suc off) cs @ sentences_from (Suc off + length cs) rest" .
      moreover have "sentences_from off ((c # cs) @ rest) = sentences_from (Suc off) (cs @ rest)"
        using True by (simp del: sentences_from.simps add: sentences_from.simps(2)[of off c])
      moreover have "sentences_from off (c # cs) = sentences_from (Suc off) cs"
        using True by (simp del: sentences_from.simps add: sentences_from.simps(2)[of off c])
      ultimately show ?thesis unfolding Cons by (simp del: sentences_from.simps)
    next
      case False
      let ?P = "\<lambda>d. \<not> is_terminator d"
      let ?bs = "takeWhile ?P cs"
      let ?tail = "dropWhile ?P cs"
      let ?marks = "takeWhile is_terminator ?tail"
      let ?remaining = "dropWhile is_terminator ?tail"
      from less.prems Cons False have csne: "cs \<noteq> []"
        by (cases "cs = []") simp_all
      with less.prems Cons have lcs: "is_terminator (last cs)"
        by simp
      from csne lcs have "\<exists>x \<in> set cs. \<not> ?P x"
        using last_in_set[of cs] by blast
      then have tne: "?tail \<noteq> []" by (simp add: dropWhile_eq_Nil_conv)
      then have "is_terminator (hd ?tail)"
        using hd_dropWhile[of ?P cs] by simp
      with tne have mne: "?marks \<noteq> []" by (simp only: takeWhile_eq_Nil_iff simp_thms)
      have body: "c # ?bs \<noteq> []" "\<forall>x \<in> set (c # ?bs). \<not> is_terminator x"
        using False by (auto dest: set_takeWhileD)
      have marks: "\<forall>x \<in> set ?marks. is_terminator x"
        by (auto dest: set_takeWhileD)
      have rem: "?remaining = [] \<or> \<not> is_terminator (hd ?remaining)"
        using hd_dropWhile[of is_terminator ?tail] by blast
      have remrest: "?remaining @ rest = [] \<or> \<not> is_terminator (hd (?remaining @ rest))"
      proof (cases "?remaining = []")
        case True
        from assms(2) have "[] @ rest = [] \<or> \<not> is_terminator (hd ([] @ rest))"
          by (simp only: append_Nil)
        then show ?thesis by (simp only: True)
      next
        case ne: False
        with rem have "\<not> is_terminator (hd ?remaining)" by blast
        moreover from ne have "hd (?remaining @ rest) = hd ?remaining" by (rule hd_append2)
        ultimately have "\<not> is_terminator (hd (?remaining @ rest))" by (simp only: simp_thms)
        then show ?thesis by (rule disjI2)
      qed
      have pre_eq: "pre = (c # ?bs) @ ?marks @ ?remaining"
        unfolding Cons by simp
      have prerest_eq: "pre @ rest = (c # ?bs) @ ?marks @ (?remaining @ rest)"
        unfolding Cons by simp
      let ?stop = "off + length (c # ?bs) + length ?marks"
      let ?S = "\<lparr>sentence_text = (c # ?bs) @ ?marks, sentence_start = off, sentence_end = ?stop\<rparr>"
      have whole: "sentences_from off ((c # ?bs) @ ?marks @ (?remaining @ rest)) =
          ?S # sentences_from ?stop (?remaining @ rest)"
        by (rule sentences_from_sentence[OF body mne marks remrest])
      have part: "sentences_from off ((c # ?bs) @ ?marks @ ?remaining) =
          ?S # sentences_from ?stop ?remaining"
        by (rule sentences_from_sentence[OF body mne marks rem])
      have "length ((c # ?bs) @ ?marks @ ?remaining) =
          length (c # ?bs) + length ?marks + length ?remaining"
        by (simp only: length_append add.assoc)
      then have len: "length pre = length (c # ?bs) + length ?marks + length ?remaining"
        by (simp only: pre_eq[symmetric])
      then have shorter: "length ?remaining < length pre" by simp
      have closed: "?remaining = [] \<or> is_terminator (last ?remaining)"
      proof (cases "?remaining = []")
        case True
        then show ?thesis by (rule disjI1)
      next
        case ne: False
        then have "last ((c # ?bs) @ ?marks @ ?remaining) = last ?remaining"
          by (simp only: last_appendR append_is_Nil_conv simp_thms)
        then have "last pre = last ?remaining" by (simp only: pre_eq[symmetric])
        moreover from less.prems Cons have "is_terminator (last pre)" by simp
        ultimately show ?thesis by simp
      qed
      from less.hyps[OF shorter closed, of ?stop]
      have ih: "sentences_from ?stop (?remaining @ rest) =
          sentences_from ?stop ?remaining @ sentences_from (?stop + length ?remaining) rest" .
      have stop: "?stop + length ?remaining = off + length pre"
        unfolding len by (simp only: add.assoc)
      have "sentences_from off (pre @ rest) = ?S # sentences_from ?stop (?remaining @ rest)"
        by (simp only: prerest_eq whole)
      also have "\<dots> = (?S # sentences_from ?stop ?remaining) @ sentences_from (off + length pre) rest"
        by (simp only: ih stop append_Cons)
      also have "?S # sentences_from ?stop ?remaining = sentences_from off pre"
        using part by (simp only: pre_eq[symmetric])
      finally show ?thesis .
    qed
  qed
qed

lemma sentences_from_end_bound:
  "s \<in> set (sentences_from off t) \<Longrightarrow> sentence_end s \<le> off + length t"
proof (induction off t arbitrary: s rule: sentences_from.induct)
  case (1 offset)
  then show ?case by simp
next
  case (2 offset c cs)
  let ?P = "\<lambda>d. \<not> is_terminator d"
  let ?body = "c # takeWhile ?P cs"
  let ?tail = "dropWhile ?P cs"
  let ?marks = "takeWhile is_terminator ?tail"
  let ?remaining = "dropWhile is_terminator ?tail"
  let ?stop = "offset + length ?body + length ?marks"
  show ?case
  proof (cases "is_terminator c")
    case True
    with "2.prems" have "s \<in> set (sentences_from (Suc offset) cs)" by simp
    from "2.IH"(1)[OF True this] show ?thesis by simp
  next
    case False
    show ?thesis
    proof (cases "?marks = []")
      case True
      with False "2.prems" show ?thesis by (simp add: Let_def)
    next
      case ne: False
      have "length (takeWhile ?P cs) + length ?tail = length cs"
        by (simp only: length_append[symmetric] takeWhile_dropWhile_id)
      moreover have "length ?marks + length ?remaining = length ?tail"
        by (simp only: length_append[symmetric] takeWhile_dropWhile_id)
      ultimately have total: "?stop + length ?remaining = offset + length (c # cs)"
        by simp
      from False ne "2.prems" have
        "s = \<lparr>sentence_text = ?body @ ?marks, sentence_start = offset, sentence_end = ?stop\<rparr>
         \<or> s \<in> set (sentences_from ?stop ?remaining)"
        by (simp add: Let_def)
      then show ?thesis
      proof
        assume "s = \<lparr>sentence_text = ?body @ ?marks, sentence_start = offset,
                     sentence_end = ?stop\<rparr>"
        then have "sentence_end s = ?stop" by simp
        with total show ?thesis by linarith
      next
        assume "s \<in> set (sentences_from ?stop ?remaining)"
        from "2.IH"(2)[OF False refl refl refl refl refl ne this]
        have "sentence_end s \<le> ?stop + length ?remaining" .
        with total show ?thesis by linarith
      qed
    qed
  qed
qed

lemma findSentenceAtPosition_skip:
  "\<forall>s \<in> set earlier. sentence_end s < pos \<Longrightarrow>
   findSentenceAtPosition (earlier @ later) pos = findSentenceAtPosition later pos"
  by (induction earlier) auto

lemma sentence_of_mention:
  assumes pre: "pre = [] \<or> (is_terminator (last pre) \<and> length pre < pos)"
    and b: "body \<noteq> []" "\<forall>c \<in> set body. \<not> is_terminator c"
    and m: "marks \<noteq> []" "\<forall>c \<in> set marks. is_terminator c"
    and p: "post = [] \<or> \<not> is_terminator (hd post)"
    and lo: "length pre \<le> pos" and hi: "pos \<le> length pre + length body + length marks"
  shows "findSentenceAtPosition (extractSentences (pre @ body @ marks @ post)) pos
           = Some (body @ marks)"
proof -
  let ?S = "\<lparr>sentence_text = body @ marks, sentence_start = length pre,
             sentence_end = length pre + length body + length marks\<rparr>"
  have closed: "pre = [] \<or> is_terminator (last pre)" using pre by blast
  have "hd (body @ marks @ post) = hd body" using b(1) by (rule hd_append2)
  moreover have "\<not> is_terminator (hd body)" using b by (cases body) simp_all
  ultimately have rest: "body @ marks @ post = [] \<or> \<not> is_terminator (hd (body @ marks @ post))"
    by (simp only: simp_thms)
  have "sentences_from 0 (pre @ (body @ marks @ post)) =
      sentences_from 0 pre @ sentences_from (0 + length pre) (body @ marks @ post)"
    using closed rest by (rule sentences_from_append)
  also have "sentences_from (0 + length pre) (body @ marks @ post) =
      ?S # sentences_from (0 + length pre + length body + length marks) post"
    using sentences_from_sentence[OF b m p, of "0 + length pre"] by (simp only: add_0)
  finally have split: "extractSentences (pre @ body @ marks @ post) =
      sentences_from 0 pre @ ?S # sentences_from (0 + length pre + length body + length marks) post"
    by (simp only: extractSentences_def)
  have earlier: "\<forall>s \<in> set (sentences_from 0 pre). sentence_end s < pos"
  proof
    fix s assume s: "s \<in> set (sentences_from 0 pre)"
    then have "pre \<noteq> []" by auto
    with pre have "length pre < pos" by blast
    moreover from sentences_from_end_bound[OF s] have "sentence_end s \<le> length pre" by simp
    ultimately show "sentence_end s < pos" by linarith
  qed
  show ?thesis
    unfolding split findSentenceAtPosition_skip[OF earlier]
    using lo hi by simp
qed

text \<open>No \<open><a \<close> wholly within the 100 characters before the offset or within the 100
  characters from it: \<open>hasLinkNearby\<close> is false.\<close>

lemma no_link_nearby:
  assumes far: "\<forall>i. reads_at content ''<a '' i \<longrightarrow>
             \<not> (pos \<le> i + 100 \<and> i + 3 \<le> pos) \<and> \<not> (pos \<le> i \<and> i + 3 \<le> pos + 100)"
    and le: "pos \<le> length content"
  shows "\<not> hasLinkNearby content pos"
proof -
  have w1: "substring content (max 0 (int pos - 100)) (int pos)
      = take (pos - (pos - 100)) (drop (pos - 100) content)"
    by (subst substring_window) (simp_all add: max_def nat_diff_distrib)
  have w2: "substring content (int pos) (min (int (length content)) (int pos + 100))
      = take (min (length content) (pos + 100) - pos) (drop pos content)"
    using le by (subst substring_window) (simp_all add: min_def nat_add_distrib)
  have "\<not> js_includes (take (pos - (pos - 100)) (drop (pos - 100) content)) ''<a ''"
  proof
    assume "js_includes (take (pos - (pos - 100)) (drop (pos - 100) content)) ''<a ''"
    from includes_window[OF this] obtain i where
      "pos - 100 \<le> i" "i + length ''<a '' \<le> pos - 100 + (pos - (pos - 100))"
      "reads_at content ''<a '' i" by auto
    then have "reads_at content ''<a '' i" "pos \<le> i + 100 \<and> i + 3 \<le> pos" by simp_all
    with far show False by blast
  qed
  moreover have "\<not> js_includes (take (min (length content) (pos + 100) - pos) (drop pos content)) ''<a ''"
  proof
    assume "js_includes (take (min (length content) (pos + 100) - pos) (drop pos content)) ''<a ''"
    from includes_window[OF this] obtain i where
      "pos \<le> i" "i + length ''<a '' \<le> pos + (min (length content) (pos + 100) - pos)"
      "reads_at content ''<a '' i" by auto
    then have "reads_at content ''<a '' i" "pos \<le> i \<and> i + 3 \<le> pos + 100" by simp_all
    with far show False by blast
  qed
  ultimately show ?thesis
    unfolding hasLinkNearby_def Let_def w1 w2 by simp
qed

subsection \<open>Relevance of a single mention\<close>

lemma cycling_title_keywords:
  "extractKeywords ''Best Smartwatches For Cycling'' = [''best'', ''smartwatches'', ''cycling'']"
  by code_simp

lemma cycling_keywords_lower:
  "toLowerCase ''best'' = ''best''" "toLowerCase ''smartwatches'' = ''smartwatches''"
  "toLowerCase ''cycling'' = ''cycling''"
  by code_simp+

lemma cycling_regex_literal: "regex_literal ''cycling''"
  by code_simp

text \<open>
  C8 (as amended: the mention is the only candidate, it is not the first character of a
  sentence that follows another, and no anchor is near). The corpus page is titled
  \<open>Best Smartwatches For Cycling\<close>, so its keywords are \<open>best\<close>, \<open>smartwatches\<close> and
  \<open>cycling\<close>. The text is \<open>pre @ body @ marks @ post\<close>, where \<open>body @ marks\<close> is a sentence:
  \<open>body\<close> a non-empty run of characters other than \<open>.\<close>, \<open>!\<close>, \<open>?\<close>, \<open>marks\<close> a non-empty run
  of these three, \<open>post\<close> empty or starting with another character, \<open>pre\<close> empty or ending
  with one of the three. The lowercased text reads \<open>cycling\<close> at the offset \<open>pos\<close> and
  nowhere else, and reads neither \<open>best\<close> nor \<open>smartwatches\<close>; the mention lies inside the
  sentence, and after its first character unless the sentence opens the text. The
  sentence is shorter than 150 characters and reads \<open>guide\<close>; no \<open><a \<close> lies wholly within
  the 100 characters before \<open>pos\<close> or within the 100 characters from \<open>pos\<close> on; \<open>maxLinks\<close> is
  at least 1. Then \<open>generateLinkOpportunities\<close> returns, with exactly one opportunity, for
  that mention and that sentence, of relevance \<open>50 + 10 + 10 + 10 = 80\<close>.
\<close>

theorem cycling_guide_relevance_80:
  assumes page: "title page = ''Best Smartwatches For Cycling''"
    and parts: "txt = pre @ body @ marks @ post"
    and pre: "pre = [] \<or> (is_terminator (last pre) \<and> length pre < pos)"
    and body: "body \<noteq> []" "\<forall>c \<in> set body. \<not> is_terminator c"
    and marks: "marks \<noteq> []" "\<forall>c \<in> set marks. is_terminator c"
    and post: "post = [] \<or> \<not> is_terminator (hd post)"
    and inside: "length pre \<le> pos" "pos + length ''cycling'' \<le> length pre + length (body @ marks)"
    and mention: "reads_at (toLowerCase txt) ''cycling'' pos"
    and once: "\<forall>j. reads_at (toLowerCase txt) ''cycling'' j \<longrightarrow> j = pos"
    and no_best: "\<forall>j. \<not> reads_at (toLowerCase txt) ''best'' j"
    and no_smartwatches: "\<forall>j. \<not> reads_at (toLowerCase txt) ''smartwatches'' j"
    and short: "length (body @ marks) < 150"
    and guide: "\<exists>j. reads_at (body @ marks) ''guide'' j"
    and no_link: "\<forall>i. reads_at txt ''<a '' i \<longrightarrow>
                   \<not> (pos \<le> i + 100 \<and> i + 3 \<le> pos) \<and> \<not> (pos \<le> i \<and> i + 3 \<le> pos + 100)"
    and room: "1 \<le> maxLinks"
  shows "extractKeywords (title page) = [''best'', ''smartwatches'', ''cycling''] \<and>
         findSentenceAtPosition (extractSentences txt) pos = Some (body @ marks) \<and>
         calculateRelevance rx ''cycling'' (body @ marks) = Inr 80 \<and>
         generateLinkOpportunities rx txt [page] maxLinks =
           Some (Inr [\<lparr>fromPage = ''current'', toPage = slug page, anchorText = ''cycling'',
                        relevanceScore = 80, contextSnippet = substring (body @ marks) 0 100,
                        position = int pos, reason = mention_reason ''cycling''\<rparr>])"
proof -
  let ?sentence = "body @ marks"
  let ?opp = "\<lparr>fromPage = ''current'', toPage = slug page, anchorText = ''cycling'',
                relevanceScore = 80, contextSnippet = substring ?sentence 0 100,
                position = int pos, reason = mention_reason ''cycling''\<rparr>"
  have kw: "extractKeywords (title page) = [''best'', ''smartwatches'', ''cycling'']"
    by (simp only: page cycling_title_keywords)
  have p1: "findKeywordPositions (toLowerCase txt) ''best'' = Some []"
    by (rule findKeywordPositions_none) (simp add: cycling_keywords_lower no_best)
  have p2: "findKeywordPositions (toLowerCase txt) ''smartwatches'' = Some []"
    by (rule findKeywordPositions_none) (simp add: cycling_keywords_lower no_smartwatches)
  have p3: "findKeywordPositions (toLowerCase txt) ''cycling'' = Some [pos]"
  proof (rule findKeywordPositions_once)
    show "reads_at (toLowerCase txt) (toLowerCase ''cycling'') pos"
      using mention by (simp add: cycling_keywords_lower)
    show "\<forall>j. reads_at (toLowerCase txt) (toLowerCase ''cycling'') j \<longrightarrow> j = pos"
      using once by (simp add: cycling_keywords_lower)
    show "''cycling'' \<noteq> []" by simp
  qed
  have found: "findSentenceAtPosition (extractSentences txt) pos = Some ?sentence"
    unfolding parts using pre body marks post inside(1)
  proof (rule sentence_of_mention)
    from inside(2) show "pos \<le> length pre + length body + length marks" by simp
  qed
  have "pos + length ''cycling'' \<le> length (toLowerCase txt)"
    using reads_at_length[OF mention] by simp
  then have le: "pos \<le> length txt" by simp
  have unlinked: "\<not> hasLinkNearby txt pos"
    using no_link le by (rule no_link_nearby)
  have lower: "toLowerCase txt = toLowerCase pre @ toLowerCase ?sentence @ toLowerCase post"
    unfolding parts by (simp add: toLowerCase_append)
  have at: "pos = length (toLowerCase pre) + (pos - length pre)"
    using inside(1) by simp
  have "reads_at (toLowerCase pre @ toLowerCase ?sentence @ toLowerCase post) ''cycling''
          (length (toLowerCase pre) + (pos - length pre))"
    using mention unfolding lower at[symmetric] .
  then have here: "reads_at (toLowerCase ?sentence) ''cycling'' (pos - length pre)"
  proof (rule reads_at_inside)
    from inside show "pos - length pre + length ''cycling'' \<le> length (toLowerCase ?sentence)"
      by simp
  qed
  have only: "\<forall>j. reads_at (toLowerCase ?sentence) ''cycling'' j \<longrightarrow> j = pos - length pre"
  proof (intro allI impI)
    fix j
    assume "reads_at (toLowerCase ?sentence) ''cycling'' j"
    then have "reads_at (toLowerCase pre @ toLowerCase ?sentence @ toLowerCase post) ''cycling''
        (length (toLowerCase pre) + j)"
      by (rule reads_at_middle)
    then have "reads_at (toLowerCase txt) ''cycling'' (length pre + j)"
      unfolding lower by simp
    with once have "length pre + j = pos" by blast
    then show "j = pos - length pre" by simp
  qed
  have count: "count_literal ''cycling'' (toLowerCase ?sentence) = 1"
    using here only by (rule count_literal_once)
  from guide obtain g where g: "reads_at ?sentence ''guide'' g" by blast
  from reads_at_length[OF g] have "g \<le> length ?sentence" by simp
  with g have includes_guide: "js_includes ?sentence ''guide''"
    unfolding js_includes_iff by blast
  have rel: "calculateRelevance rx ''cycling'' ?sentence = Inr 80"
    using count short includes_guide cycling_regex_literal
    by (simp add: calculateRelevance_def match_count_def Let_def)
  have loop: "page_loop rx txt (toLowerCase txt) (extractSentences txt) [page] []
      = Some (Inr [?opp])"
    using p1 p2 p3 found unlinked rel by (simp add: kw)
  have rank: "slice (sort_key (\<lambda>opp. - int (relevanceScore opp)) [?opp]) 0 maxLinks = [?opp]"
    using room by (simp add: slice_def)
  have "generateLinkOpportunities rx txt [page] maxLinks = Some (Inr [?opp])"
    unfolding generateLinkOpportunities_def Let_def loop option.case sum.case rank
    by (simp add: distributeEvenly_def)
  with kw found rel show ?thesis by simp
qed

text \<open>The text \<open>This guide covers cycling.\<close>: one sentence, the mention at offset 18.\<close>

theorem cycling_guide_relevance_80_witness:
  "title cycling_page = ''Best Smartwatches For Cycling'' \<and>
   ''This guide covers cycling.'' = [] @ ''This guide covers cycling'' @ ''.'' @ [] \<and>
   reads_at (toLowerCase ''This guide covers cycling.'') ''cycling'' 18 \<and>
   \<not> (\<exists>j. j \<noteq> 18 \<and> reads_at (toLowerCase ''This guide covers cycling.'') ''cycling'' j) \<and>
   \<not> (\<exists>j. reads_at (toLowerCase ''This guide covers cycling.'') ''best'' j) \<and>
   \<not> (\<exists>j. reads_at (toLowerCase ''This guide covers cycling.'') ''smartwatches'' j) \<and>
   length ''This guide covers cycling.'' < 150 \<and>
   reads_at ''This guide covers cycling.'' ''guide'' 5 \<and>
   \<not> (\<exists>i. reads_at ''This guide covers cycling.'' ''<a '' i) \<and>
   findSentenceAtPosition (extractSentences ''This guide covers cycling.'') 18
     = Some ''This guide covers cycling.'' \<and>
   calculateRelevance no_regexp ''cycling'' ''This guide covers cycling.'' = Inr 80 \<and>
   generateLinkOpportunities no_regexp ''This guide covers cycling.'' [cycling_page] 15 =
     Some (Inr [\<lparr>fromPage = ''current'', toPage = ''best-smartwatches-for-cycling'',
                  anchorText = ''cycling'', relevanceScore = 80,
                  contextSnippet = ''This guide covers cycling.'', position = 18,
                  reason = mention_reason ''cycling''\<rparr>])"
proof -
  let ?txt = "''This guide covers cycling.''"
  have h1: "title cycling_page = ''Best Smartwatches For Cycling''"
    by (simp add: cycling_page_def)
  have h2: "?txt = [] @ ''This guide covers cycling'' @ ''.'' @ []"
    by simp
  have h3: "[] = [] \<or> (is_terminator (last []) \<and> length ([] :: string) < 18)"
    by simp
  have h4: "''This guide covers cycling'' \<noteq> []"
    and h5: "\<forall>c \<in> set ''This guide covers cycling''. \<not> is_terminator c"
    and h6: "''.'' \<noteq> []" and h7: "\<forall>c \<in> set ''.''. is_terminator c"
    and h8: "([] :: string) = [] \<or> \<not> is_terminator (hd [])"
    by (simp_all add: is_terminator_def)
  have h9: "length ([] :: string) \<le> 18"
    and h10: "18 + length ''cycling'' \<le> length ([] :: string) + length (''This guide covers cycling'' @ ''.'')"
    by simp_all
  have i1: "indexOf (toLowerCase ?txt) ''cycling'' = Some 18"
    and i2: "indexOf (drop (Suc 18) (toLowerCase ?txt)) ''cycling'' = None"
    and i3: "indexOf (toLowerCase ?txt) ''best'' = None"
    and i4: "indexOf (toLowerCase ?txt) ''smartwatches'' = None"
    and i5: "indexOf ?txt ''<a '' = None"
    by code_simp+
  from only_at_by_search[OF i1 i2]
  have h11: "reads_at (toLowerCase ?txt) ''cycling'' 18"
    and only: "\<not> (\<exists>j. j \<noteq> 18 \<and> reads_at (toLowerCase ?txt) ''cycling'' j)"
    by simp_all
  from only have h12: "\<forall>j. reads_at (toLowerCase ?txt) ''cycling'' j \<longrightarrow> j = 18" by blast
  from never_by_search[OF i3] have no_best: "\<not> (\<exists>j. reads_at (toLowerCase ?txt) ''best'' j)"
    by simp
  then have h13: "\<forall>j. \<not> reads_at (toLowerCase ?txt) ''best'' j" by blast
  from never_by_search[OF i4]
  have no_smart: "\<not> (\<exists>j. reads_at (toLowerCase ?txt) ''smartwatches'' j)" by simp
  then have h14: "\<forall>j. \<not> reads_at (toLowerCase ?txt) ''smartwatches'' j" by blast
  have h15: "length (''This guide covers cycling'' @ ''.'') < 150" by simp
  have guide: "reads_at ?txt ''guide'' 5" by code_simp
  then have h16: "\<exists>j. reads_at (''This guide covers cycling'' @ ''.'') ''guide'' j"
    by (intro exI[of _ 5]) simp
  from never_by_search[OF i5] have no_link: "\<not> (\<exists>i. reads_at ?txt ''<a '' i)" by simp
  then have h17: "\<forall>i. reads_at ?txt ''<a '' i \<longrightarrow>
      \<not> (18 \<le> i + 100 \<and> i + 3 \<le> 18) \<and> \<not> (18 \<le> i \<and> i + 3 \<le> 18 + 100)"
    by blast
  have h18: "(1::int) \<le> 15" by simp
  note inst = cycling_guide_relevance_80[where rx = no_regexp,
      OF h1 h2 h3 h4 h5 h6 h7 h8 h9 h10 h11 h12 h13 h14 h15 h16 h17 h18]
  have snippet: "substring (''This guide covers cycling'' @ ''.'') 0 100 = ?txt"
    by code_simp
  have slug: "slug cycling_page = ''best-smartwatches-for-cycling''"
    by (simp add: cycling_page_def)
  from inst have found: "findSentenceAtPosition (extractSentences ?txt) 18 = Some ?txt"
    and rel: "calculateRelevance no_regexp ''cycling'' ?txt = Inr 80"
    and gen: "generateLinkOpportunities no_regexp ?txt [cycling_page] 15 =
     Some (Inr [\<lparr>fromPage = ''current'', toPage = ''best-smartwatches-for-cycling'',
                  anchorText = ''cycling'', relevanceScore = 80,
                  contextSnippet = ?txt, position = 18,
                  reason = mention_reason ''cycling''\<rparr>])"
    unfolding snippet slug by simp_all
  have short: "length ?txt < 150" by simp
  from h1 h2 h11 only no_best no_smart short guide no_link found rel gen
  show ?thesis by (intro conjI)
qed

text \<open>
  The same sentence after a link: the text holds \<open>cycling\<close> once (offset 42), in a sentence
  of 27 characters that contains \<open>guide\<close>, but an anchor opens less than 100 characters
  before the mention, and no opportunity is produced.
\<close>

theorem cycling_guide_link_nearby_counterexample:
  "reads_at (toLowerCase ''See <a href=x>here</a>. This guide covers cycling.'') ''cycling'' 42 \<and>
   \<not> (\<exists>j. j \<noteq> 42 \<and>
          reads_at (toLowerCase ''See <a href=x>here</a>. This guide covers cycling.'') ''cycling'' j) \<and>
   findSentenceAtPosition (extractSentences ''See <a href=x>here</a>. This guide covers cycling.'') 42
     = Some '' This guide covers cycling.'' \<and>
   length '' This guide covers cycling.'' < 150 \<and>
   reads_at '' This guide covers cycling.'' ''guide'' 6 \<and>
   generateLinkOpportunities no_regexp ''See <a href=x>here</a>. This guide covers cycling.''
     [cycling_page] 15 = Some (Inr [])"
proof -
  let ?txt = "''See <a href=x>here</a>. This guide covers cycling.''"
  have i1: "indexOf (toLowerCase ?txt) ''cycling'' = Some 42"
    and i2: "indexOf (drop (Suc 42) (toLowerCase ?txt)) ''cycling'' = None"
    by code_simp+
  from only_at_by_search[OF i1 i2]
  have "reads_at (toLowerCase ?txt) ''cycling'' 42"
    and "\<not> (\<exists>j. j \<noteq> 42 \<and> reads_at (toLowerCase ?txt) ''cycling'' j)"
    by simp_all
  moreover have "findSentenceAtPosition (extractSentences ?txt) 42
     = Some '' This guide covers cycling.''"
    by code_simp
  moreover have "length '' This guide covers cycling.'' < 150" by simp
  moreover have "reads_at '' This guide covers cycling.'' ''guide'' 6" by code_simp
  moreover have "generateLinkOpportunities no_regexp ?txt [cycling_page] 15 = Some (Inr [])"
    by code_simp
  ultimately show ?thesis by (intro conjI)
qed

text \<open>A mention that is the first character of a sentence following another is looked up
  in that other sentence (its range includes its end offset): here \<open>Intro.\<close>, which does
  not hold the keyword, and the relevance is 60.\<close>

lemma sentence_start_example:
  "generateLinkOpportunities no_regexp ''Intro.cycling guide.'' [cycling_page] 15 =
     Some (Inr [\<lparr>fromPage = ''current'', toPage = ''best-smartwatches-for-cycling'',
                  anchorText = ''cycling'', relevanceScore = 60,
                  contextSnippet = ''Intro.'', position = 6,
                  reason = mention_reason ''cycling''\<rparr>])"
  by code_simp

subsection \<open>What discovery returns\<close>

text \<open>The keywords of a title are lowercase.\<close>

lemma words_at_chars:
  "w \<in> set (words_at piece s) \<Longrightarrow> set w \<subseteq> set piece \<union> set s"
proof (induction piece s rule: words_at.induct)
  case (1 piece)
  then show ?case by simp
next
  case (2 piece c cs)
  show ?case
  proof (cases "is_space c")
    case True
    with "2.prems" have "w = rev piece \<or> w \<in> set (words_at [] (dropWhile is_space cs))"
      by simp
    then show ?thesis
    proof
      assume "w = rev piece"
      then show ?thesis by auto
    next
      assume "w \<in> set (words_at [] (dropWhile is_space cs))"
      from "2.IH"(1)[OF True this] have "set w \<subseteq> set (dropWhile is_space cs)" by simp
      moreover have "set (dropWhile is_space cs) \<subseteq> set cs"
        by (auto dest: set_dropWhileD)
      ultimately show ?thesis by auto
    qed
  next
    case False
    with "2.prems" have "w \<in> set (words_at (c # piece) cs)" by simp
    from "2.IH"(2)[OF False this] show ?thesis by auto
  qed
qed

lemma extractKeywords_lower:
  assumes "k \<in> set (extractKeywords t)"
  shows "toLowerCase k = k"
proof -
  from assms have "k \<in> set (words_at [] (toLowerCase t))"
    by (simp add: extractKeywords_def Let_def)
  from words_at_chars[OF this] have "set k \<subseteq> toLower_char ` set t"
    by (simp add: toLowerCase_def)
  then have "\<forall>x \<in> set k. toLower_char x = x"
    using toLower_char_idem by auto
  then show ?thesis unfolding toLowerCase_def by (simp add: map_idI)
qed

text \<open>A property of the opportunity built for a keyword of a page at an offset where the
  keyword was found holds of every opportunity the three loops collect, and of every one
  that is left after sorting, cutting and spacing.\<close>

lemma position_loop_preserves:
  assumes "position_loop rx targetContent sentences page keyword positions acc = Inr found"
    and "\<forall>opp \<in> set acc. Q opp"
    and "\<And>pos snippet relevance. pos \<in> set positions \<Longrightarrow>
           Q \<lparr>fromPage = ''current'', toPage = slug page, anchorText = keyword,
              relevanceScore = relevance, contextSnippet = snippet,
              position = int pos, reason = mention_reason keyword\<rparr>"
  shows "\<forall>opp \<in> set found. Q opp"
  using assms
proof (induction positions arbitrary: acc)
  case Nil
  then show ?case by simp
next
  case (Cons pos rest)
  have step: "\<And>pos' snippet relevance. pos' \<in> set rest \<Longrightarrow>
           Q \<lparr>fromPage = ''current'', toPage = slug page, anchorText = keyword,
              relevanceScore = relevance, contextSnippet = snippet,
              position = int pos', reason = mention_reason keyword\<rparr>"
    using Cons.prems(3) by simp
  show ?case
  proof (cases "findSentenceAtPosition sentences pos")
    case None
    with Cons.prems(1)
    have "position_loop rx targetContent sentences page keyword rest acc = Inr found" by simp
    from Cons.IH[OF this Cons.prems(2) step] show ?thesis .
  next
    case (Some sentence)
    show ?thesis
    proof (cases "hasLinkNearby targetContent pos")
      case True
      with Some Cons.prems(1)
      have "position_loop rx targetContent sentences page keyword rest acc = Inr found" by simp
      from Cons.IH[OF this Cons.prems(2) step] show ?thesis .
    next
      case False
      show ?thesis
      proof (cases "calculateRelevance rx keyword sentence")
        case (Inl e)
        with Some False Cons.prems(1) show ?thesis by simp
      next
        case (Inr relevance)
        let ?new = "\<lparr>fromPage = ''current'', toPage = slug page, anchorText = keyword,
              relevanceScore = relevance, contextSnippet = substring sentence 0 100,
              position = int pos, reason = mention_reason keyword\<rparr>"
        from Inr Some False Cons.prems(1)
        have run: "position_loop rx targetContent sentences page keyword rest (acc @ [?new])
            = Inr found" by simp
        have "Q ?new" by (rule Cons.prems(3)) simp
        with Cons.prems(2) have "\<forall>opp \<in> set (acc @ [?new]). Q opp" by simp
        from Cons.IH[OF run this step] show ?thesis .
      qed
    qed
  qed
qed

lemma keyword_loop_preserves:
  assumes "keyword_loop rx targetContent contentLower sentences page kws acc
             = Some (Inr found)"
    and "\<forall>opp \<in> set acc. Q opp"
    and "\<And>keyword positions pos snippet relevance.
           keyword \<in> set kws \<Longrightarrow> findKeywordPositions contentLower keyword = Some positions \<Longrightarrow>
           pos \<in> set positions \<Longrightarrow>
           Q \<lparr>fromPage = ''current'', toPage = slug page, anchorText = keyword,
              relevanceScore = relevance, contextSnippet = snippet,
              position = int pos, reason = mention_reason keyword\<rparr>"
  shows "\<forall>opp \<in> set found. Q opp"
  using assms
proof (induction kws arbitrary: acc)
  case Nil
  then show ?case by simp
next
  case (Cons keyword rest)
  from Cons.prems(1) obtain positions where
    ps: "findKeywordPositions contentLower keyword = Some positions"
    by (cases "findKeywordPositions contentLower keyword") simp_all
  from Cons.prems(1) ps obtain acc' where
    inner: "position_loop rx targetContent sentences page keyword positions acc = Inr acc'"
    by (cases "position_loop rx targetContent sentences page keyword positions acc") simp_all
  from Cons.prems(1) ps inner have
    run: "keyword_loop rx targetContent contentLower sentences page rest acc' = Some (Inr found)"
    by simp
  have "\<forall>opp \<in> set acc'. Q opp"
    using inner Cons.prems(2)
  proof (rule position_loop_preserves)
    fix pos snippet relevance
    assume "pos \<in> set positions"
    with ps show "Q \<lparr>fromPage = ''current'', toPage = slug page, anchorText = keyword,
              relevanceScore = relevance, contextSnippet = snippet,
              position = int pos, reason = mention_reason keyword\<rparr>"
      by (intro Cons.prems(3)[of keyword positions]) simp_all
  qed
  with run show ?case
  proof (rule Cons.IH)
    fix keyword' positions' pos snippet relevance
    assume "keyword' \<in> set rest" "findKeywordPositions contentLower keyword' = Some positions'"
      "pos \<in> set positions'"
    then show "Q \<lparr>fromPage = ''current'', toPage = slug page, anchorText = keyword',
              relevanceScore = relevance, contextSnippet = snippet,
              position = int pos, reason = mention_reason keyword'\<rparr>"
      by (intro Cons.prems(3)[of keyword' positions']) simp_all
  qed
qed

lemma page_loop_preserves:
  assumes "page_loop rx targetContent contentLower sentences pages acc = Some (Inr found)"
    and "\<forall>opp \<in> set acc. Q opp"
    and "\<And>page keyword positions pos snippet relevance.
           page \<in> set pages \<Longrightarrow> keyword \<in> set (extractKeywords (title page)) \<Longrightarrow>
           findKeywordPositions contentLower keyword = Some positions \<Longrightarrow>
           pos \<in> set positions \<Longrightarrow>
           Q \<lparr>fromPage = ''current'', toPage = slug page, anchorText = keyword,
              relevanceScore = relevance, contextSnippet = snippet,
              position = int pos, reason = mention_reason keyword\<rparr>"
  shows "\<forall>opp \<in> set found. Q opp"
  using assms
proof (induction pages arbitrary: acc)
  case Nil
  then show ?case by simp
next
  case (Cons page rest)
  from Cons.prems(1) obtain acc' where
    inner: "keyword_loop rx targetContent contentLower sentences page
              (extractKeywords (title page)) acc = Some (Inr acc')"
    and run: "page_loop rx targetContent contentLower sentences rest acc' = Some (Inr found)"
    by (auto split: option.splits sum.splits)
  have "\<forall>opp \<in> set acc'. Q opp"
    using inner Cons.prems(2)
  proof (rule keyword_loop_preserves)
    fix keyword positions pos snippet relevance
    assume "keyword \<in> set (extractKeywords (title page))"
      "findKeywordPositions contentLower keyword = Some positions" "pos \<in> set positions"
    then show "Q \<lparr>fromPage = ''current'', toPage = slug page, anchorText = keyword,
              relevanceScore = relevance, contextSnippet = snippet,
              position = int pos, reason = mention_reason keyword\<rparr>"
      by (intro Cons.prems(3)[of page keyword positions]) simp_all
  qed
  with run show ?case
  proof (rule Cons.IH)
    fix page' keyword positions pos snippet relevance
    assume "page' \<in> set rest" "keyword \<in> set (extractKeywords (title page'))"
      "findKeywordPositions contentLower keyword = Some positions" "pos \<in> set positions"
    then show "Q \<lparr>fromPage = ''current'', toPage = slug page', anchorText = keyword,
              relevanceScore = relevance, contextSnippet = snippet,
              position = int pos, reason = mention_reason keyword\<rparr>"
      by (intro Cons.prems(3)[of page' keyword positions]) simp_all
  qed
qed

lemma distribute_loop_subset:
  "set (distribute_loop minDistance lastPosition kept opps) \<subseteq> set kept \<union> set opps"
proof (induction opps arbitrary: lastPosition kept)
  case Nil
  then show ?case by simp
next
  case (Cons opp opps)
  show ?case
  proof (cases "position opp - lastPosition \<ge> minDistance \<or> length kept = 0")
    case True
    then have "distribute_loop minDistance lastPosition kept (opp # opps) =
        distribute_loop minDistance (position opp) (kept @ [opp]) opps"
      by simp
    moreover have "set (distribute_loop minDistance (position opp) (kept @ [opp]) opps)
        \<subseteq> set (kept @ [opp]) \<union> set opps"
      by (rule Cons.IH)
    ultimately show ?thesis by auto
  next
    case False
    then have "distribute_loop minDistance lastPosition kept (opp # opps) =
        distribute_loop minDistance lastPosition kept opps"
      by simp
    moreover have "set (distribute_loop minDistance lastPosition kept opps)
        \<subseteq> set kept \<union> set opps"
      by (rule Cons.IH)
    ultimately show ?thesis by auto
  qed
qed

lemma slice_subset: "set (slice xs a b) \<subseteq> set xs"
proof -
  have "set (take n (drop m xs)) \<subseteq> set xs" for n m
    using set_take_subset[of n "drop m xs"] set_drop_subset[of m xs] by blast
  then show ?thesis unfolding slice_def Let_def .
qed

lemma discovery_reads_lowercase:
  assumes ret: "generateLinkOpportunities rx txt pages maxLinks = Some (Inr opps)"
    and opp: "opp \<in> set opps"
  shows "\<exists>page \<in> set pages.
           toPage opp = slug page \<and> anchorText opp \<in> set (extractKeywords (title page)) \<and>
           toLowerCase (anchorText opp) = anchorText opp \<and> 0 \<le> position opp \<and>
           reads_at (toLowerCase txt) (anchorText opp) (nat (position opp))"
proof -
  let ?Q = "\<lambda>opp. \<exists>page \<in> set pages.
           toPage opp = slug page \<and> anchorText opp \<in> set (extractKeywords (title page)) \<and>
           toLowerCase (anchorText opp) = anchorText opp \<and> 0 \<le> position opp \<and>
           reads_at (toLowerCase txt) (anchorText opp) (nat (position opp))"
  from ret obtain found where
    loop: "page_loop rx txt (toLowerCase txt) (extractSentences txt) pages [] = Some (Inr found)"
    and opps: "opps = distributeEvenly
        (slice (sort_key (\<lambda>opp. - int (relevanceScore opp)) found) 0 maxLinks) (length txt)"
    by (auto simp: generateLinkOpportunities_def Let_def split: option.splits sum.splits)
  have "\<forall>opp \<in> set found. ?Q opp"
    using loop
  proof (rule page_loop_preserves)
    show "\<forall>opp \<in> set []. ?Q opp" by simp
  next
    fix page keyword positions pos snippet relevance
    assume page: "page \<in> set pages" and kw: "keyword \<in> set (extractKeywords (title page))"
      and ps: "findKeywordPositions (toLowerCase txt) keyword = Some positions"
      and pos: "pos \<in> set positions"
    from kw have low: "toLowerCase keyword = keyword" by (rule extractKeywords_lower)
    from findKeywordPositions_reads[OF ps pos] low
    have "reads_at (toLowerCase txt) keyword pos" by simp
    with page kw low
    show "?Q \<lparr>fromPage = ''current'', toPage = slug page, anchorText = keyword,
              relevanceScore = relevance, contextSnippet = snippet,
              position = int pos, reason = mention_reason keyword\<rparr>"
      by (intro bexI[of _ page]) simp_all
  qed
  moreover have "set opps \<subseteq> set found"
  proof -
    have "set opps \<subseteq> set (slice (sort_key (\<lambda>opp. - int (relevanceScore opp)) found) 0 maxLinks)"
      unfolding opps distributeEvenly_def Let_def
      using distribute_loop_subset[of _ 0 "[]"] by simp
    also have "\<dots> \<subseteq> set (sort_key (\<lambda>opp. - int (relevanceScore opp)) found)"
      by (rule slice_subset)
    finally show ?thesis by simp
  qed
  ultimately show ?thesis using opp by blast
qed

subsection \<open>Injection\<close>

text \<open>One round of the injection loop leaves the content as it is when the content does
  not read the anchor text within 200 characters from the recorded offset, and makes it
  longer when it does and the offset is not in the set of used offsets.\<close>

lemma inject_step_not_found:
  assumes "\<forall>j<200. \<not> reads_at modifiedContent (anchorText opp) (nat (position opp) + j)"
  shows "inject_step (modifiedContent, injected) opp = (modifiedContent, injected)"
proof -
  let ?afterLink = "substring_from modifiedContent (position opp)"
  have "\<not> (\<exists>j<200. reads_at ?afterLink (anchorText opp) j)"
    using assms by (simp add: substring_from_drop reads_at_drop)
  then have "\<not> (\<exists>a. indexOf ?afterLink (anchorText opp) = Some a \<and> a < 200)"
    unfolding first_within .
  then show ?thesis
    by (auto simp: inject_step_def Let_def split: option.splits)
qed

lemma inject_step_found_grows:
  assumes fresh: "position opp \<notin> injected"
    and found: "\<exists>j<200. reads_at modifiedContent (anchorText opp) (nat (position opp) + j)"
  shows "length (fst (inject_step (modifiedContent, injected) opp)) > length modifiedContent"
proof -
  let ?afterLink = "substring_from modifiedContent (position opp)"
  let ?n = "length modifiedContent"
  let ?L = "length (anchorText opp)"
  have "\<exists>j<200. reads_at ?afterLink (anchorText opp) j"
    using found by (simp add: substring_from_drop reads_at_drop)
  then obtain a where a: "indexOf ?afterLink (anchorText opp) = Some a" "a < 200"
    unfolding first_within[symmetric] by blast
  let ?actual = "position opp + int a"
  have step: "fst (inject_step (modifiedContent, injected) opp) =
      take (nat ?actual) modifiedContent @ anchor_tag (toPage opp) (anchorText opp)
      @ drop (nat (?actual + int ?L)) modifiedContent"
    using fresh a
    by (simp add: inject_step_def Let_def substring_0_take substring_from_drop)
  have "?L < length (anchor_tag (toPage opp) (anchorText opp))"
    by (simp add: anchor_tag_def)
  moreover have "?n \<le> length (take (nat ?actual) modifiedContent)
      + length (drop (nat (?actual + int ?L)) modifiedContent) + ?L"
    by simp
  ultimately show ?thesis unfolding step by simp
qed

lemma inject_step_skips_iff:
  assumes "position opp \<notin> injected"
  shows "inject_step (modifiedContent, injected) opp = (modifiedContent, injected) \<longleftrightarrow>
         (\<forall>j<200. \<not> reads_at modifiedContent (anchorText opp) (nat (position opp) + j))"
proof
  assume same: "inject_step (modifiedContent, injected) opp = (modifiedContent, injected)"
  show "\<forall>j<200. \<not> reads_at modifiedContent (anchorText opp) (nat (position opp) + j)"
  proof (rule ccontr)
    assume "\<not> (\<forall>j<200. \<not> reads_at modifiedContent (anchorText opp) (nat (position opp) + j))"
    then have "\<exists>j<200. reads_at modifiedContent (anchorText opp) (nat (position opp) + j)"
      by blast
    from inject_step_found_grows[OF assms this] same show False by simp
  qed
next
  assume "\<forall>j<200. \<not> reads_at modifiedContent (anchorText opp) (nat (position opp) + j)"
  then show "inject_step (modifiedContent, injected) opp = (modifiedContent, injected)"
    by (rule inject_step_not_found)
qed

lemma inject_all_not_found:
  assumes "\<forall>opp \<in> set opps. \<forall>j<200. \<not> reads_at content (anchorText opp) (nat (position opp) + j)"
  shows "foldl inject_step (content, injected) opps = (content, injected)"
  using assms by (induction opps) (simp_all add: inject_step_not_found)

text \<open>
  C5 (the code does not keep the property). The text \<open>We love cycling.\<close> and one corpus
  page, titled \<open>Cycling Tours\<close>: discovery returns one opportunity, for the mention at offset
  8. The first call of \<open>injectContextualLinks\<close> wraps the mention in an anchor. A second
  call with the same list on the result starts with an empty set of used offsets, finds
  the anchor text again inside the anchor (44 characters after the recorded offset) and
  wraps it once more: an anchor nested in an anchor around the same mention.
\<close>

theorem second_pass_nests_anchor:
  "generateLinkOpportunities no_regexp ''We love cycling.'' [tours_page] 15
     = Some (Inr [tours_opportunity]) \<and>
   injectContextualLinks ''We love cycling.'' [tours_opportunity]
     = ''We love '' @ anchor_tag ''bike-tours'' ''cycling'' @ ''.'' \<and>
   injectContextualLinks (injectContextualLinks ''We love cycling.'' [tours_opportunity])
       [tours_opportunity]
     = ''We love '' @ anchor_tag ''bike-tours'' (anchor_tag ''bike-tours'' ''cycling'') @ ''.''"
  by code_simp

text \<open>The set of used offsets does not prevent this within one call either: it remembers
  the offset where a link was put, and the text has moved when the next opportunity
  comes. In \<open>cycling cycling.\<close> discovery finds both mentions; the first is wrapped, and the
  search for the second, from offset 8, now starts inside the opening tag of that link and
  finds the first mention again.\<close>

lemma same_pass_nests_anchor:
  "map_option (map_sum (\<lambda>e. e) (injectContextualLinks ''cycling cycling.''))
     (generateLinkOpportunities no_regexp ''cycling cycling.'' [tours_page] 15)
   = Some (Inr (anchor_tag ''bike-tours'' (anchor_tag ''bike-tours'' ''cycling'') @ '' cycling.''))"
  by code_simp

text \<open>
  C10 (as amended: the anchor text is looked for in the content as it is when the
  opportunity's turn comes). Discovery matches in the lowercased text: every opportunity
  it returns has as anchor text a keyword of a corpus page, which is lowercase, and a
  non-negative offset at which the lowercased text reads that keyword. Injection looks
  for the anchor text as it is, in the content as modified so far: a round whose offset
  is not among the used offsets leaves content and used offsets unchanged exactly when
  that content does not read the anchor text at any of the 200 offsets from the recorded
  one on (so when the mention is written with a capital and no lowercase one follows
  within 200 characters). So a list of opportunities none of which finds its anchor text
  that way in the original content leaves the content unchanged.
\<close>

theorem unfound_anchor_is_skipped:
  "(generateLinkOpportunities rx targetContent pages maxLinks = Some (Inr found) \<longrightarrow>
      (\<forall>opp \<in> set found. \<exists>page \<in> set pages.
          toPage opp = slug page \<and> anchorText opp \<in> set (extractKeywords (title page)) \<and>
          toLowerCase (anchorText opp) = anchorText opp \<and> 0 \<le> position opp \<and>
          reads_at (toLowerCase targetContent) (anchorText opp) (nat (position opp)))) \<and>
   (position opp \<notin> injected \<longrightarrow>
      (inject_step (modifiedContent, injected) opp = (modifiedContent, injected)) =
      (\<forall>j<200. \<not> reads_at modifiedContent (anchorText opp) (nat (position opp) + j))) \<and>
   ((\<forall>opp \<in> set opps. \<forall>j<200. \<not> reads_at content (anchorText opp) (nat (position opp) + j)) \<longrightarrow>
      foldl inject_step (content, {}) opps = (content, {}) \<and>
      injectContextualLinks content opps = content)"
proof (intro conjI impI ballI)
  fix opp
  assume "generateLinkOpportunities rx targetContent pages maxLinks = Some (Inr found)" "opp \<in> set found"
  then show "\<exists>page \<in> set pages.
          toPage opp = slug page \<and> anchorText opp \<in> set (extractKeywords (title page)) \<and>
          toLowerCase (anchorText opp) = anchorText opp \<and> 0 \<le> position opp \<and>
          reads_at (toLowerCase targetContent) (anchorText opp) (nat (position opp))"
    by (rule discovery_reads_lowercase)
next
  assume "position opp \<notin> injected"
  then show "(inject_step (modifiedContent, injected) opp = (modifiedContent, injected)) =
      (\<forall>j<200. \<not> reads_at modifiedContent (anchorText opp) (nat (position opp) + j))"
    by (rule inject_step_skips_iff)
next
  assume "\<forall>opp \<in> set opps. \<forall>j<200. \<not> reads_at content (anchorText opp) (nat (position opp) + j)"
  then show "foldl inject_step (content, {}) opps = (content, {})"
    by (rule inject_all_not_found)
  then show "injectContextualLinks content opps = content"
    by (simp add: injectContextualLinks_def)
qed

text \<open>\<open>Cycling is fun.\<close>: discovery reports the mention at offset 0 with the anchor text
  \<open>cycling\<close>, which the text nowhere reads; the content stays as it is.\<close>

theorem unfound_anchor_is_skipped_witness:
  "generateLinkOpportunities no_regexp ''Cycling is fun.'' [tours_page] 15
     = Some (Inr [capital_opportunity]) \<and>
   anchorText capital_opportunity = ''cycling'' \<and> position capital_opportunity = 0 \<and>
   reads_at (toLowerCase ''Cycling is fun.'') ''cycling'' 0 \<and>
   \<not> (\<exists>j. reads_at ''Cycling is fun.'' ''cycling'' j) \<and>
   inject_step (''Cycling is fun.'', {}) capital_opportunity = (''Cycling is fun.'', {}) \<and>
   injectContextualLinks ''Cycling is fun.'' [capital_opportunity] = ''Cycling is fun.''"
proof -
  let ?txt = "''Cycling is fun.''"
  note inst = unfound_anchor_is_skipped[where rx = no_regexp and targetContent = "''Cycling is fun.''"
      and pages = "[tours_page]" and maxLinks = 15 and found = "[capital_opportunity]"
      and opp = capital_opportunity and injected = "{}" and modifiedContent = "''Cycling is fun.''"
      and content = "''Cycling is fun.''" and opps = "[capital_opportunity]"]
  have gen: "generateLinkOpportunities no_regexp ?txt [tours_page] 15
     = Some (Inr [capital_opportunity])"
    by code_simp
  have fields: "anchorText capital_opportunity = ''cycling''" "position capital_opportunity = 0"
    by (simp_all add: capital_opportunity_def)
  from inst gen have "reads_at (toLowerCase ?txt) (anchorText capital_opportunity)
      (nat (position capital_opportunity))"
    by simp
  then have low: "reads_at (toLowerCase ?txt) ''cycling'' 0" by (simp add: fields)
  have "indexOf ?txt ''cycling'' = None" by code_simp
  from never_by_search[OF this] have never: "\<not> (\<exists>j. reads_at ?txt ''cycling'' j)" by simp
  then have unfound: "\<forall>j<200. \<not> reads_at ?txt (anchorText capital_opportunity)
      (nat (position capital_opportunity) + j)"
    by (simp add: fields)
  have fresh: "position capital_opportunity \<notin> {}" by simp
  from inst fresh unfound
  have step: "inject_step (?txt, {}) capital_opportunity = (?txt, {})" by blast
  from unfound have "\<forall>opp \<in> set [capital_opportunity].
      \<forall>j<200. \<not> reads_at ?txt (anchorText opp) (nat (position opp) + j)"
    by simp
  with inst have whole: "injectContextualLinks ?txt [capital_opportunity] = ?txt" by blast
  from gen fields low never step whole show ?thesis by (intro conjI)
qed

text \<open>
  \<open>our tours Cycling.\<close> with the pages \<open>Great Tours\<close> (slug \<open>cycling-tours\<close>) and \<open>Cycling\<close>:
  discovery returns the mention of \<open>tours\<close> at offset 4 and the capitalised mention of
  \<open>cycling\<close> at offset 10. The text nowhere reads \<open>cycling\<close>, yet the second opportunity is
  not skipped: the link injected for the first one has brought \<open>cycling\<close> into the content,
  in its address, and that is where the second link is put.
\<close>

theorem earlier_link_feeds_capital_counterexample:
  "generateLinkOpportunities no_regexp ''our tours Cycling.'' [great_tours_page, cycling_topic_page] 15
     = Some (Inr [tours_mention, capital_mention]) \<and>
   anchorText capital_mention = ''cycling'' \<and> position capital_mention = 10 \<and>
   reads_at (toLowerCase ''our tours Cycling.'') ''cycling'' 10 \<and>
   \<not> (\<exists>j. reads_at ''our tours Cycling.'' ''cycling'' j) \<and>
   injectContextualLinks ''our tours Cycling.'' [tours_mention]
     = ''our '' @ anchor_tag ''cycling-tours'' ''tours'' @ '' Cycling.'' \<and>
   injectContextualLinks ''our tours Cycling.'' [tours_mention, capital_mention]
     = ''our <a href='' @ [CHR 0x22] @ ''/'' @ anchor_tag ''cycling'' ''cycling'' @ ''-tours''
       @ [CHR 0x22] @ '' class='' @ [CHR 0x22] @ ''internal-link'' @ [CHR 0x22] @ ''>tours</a> Cycling.'' \<and>
   injectContextualLinks ''our tours Cycling.'' [tours_mention, capital_mention]
     \<noteq> injectContextualLinks ''our tours Cycling.'' [tours_mention]"
proof -
  let ?txt = "''our tours Cycling.''"
  have "generateLinkOpportunities no_regexp ?txt [great_tours_page, cycling_topic_page] 15
     = Some (Inr [tours_mention, capital_mention])"
    by code_simp
  moreover have "anchorText capital_mention = ''cycling''" "position capital_mention = 10"
    by (simp_all add: capital_mention_def)
  moreover have "reads_at (toLowerCase ?txt) ''cycling'' 10" by code_simp
  moreover have "indexOf ?txt ''cycling'' = None" by code_simp
  from never_by_search[OF this] have "\<not> (\<exists>j. reads_at ?txt ''cycling'' j)" by simp
  moreover have one: "injectContextualLinks ?txt [tours_mention]
     = ''our '' @ anchor_tag ''cycling-tours'' ''tours'' @ '' Cycling.''"
    by code_simp
  moreover have two: "injectContextualLinks ?txt [tours_mention, capital_mention]
     = ''our <a href='' @ [CHR 0x22] @ ''/'' @ anchor_tag ''cycling'' ''cycling'' @ ''-tours''
       @ [CHR 0x22] @ '' class='' @ [CHR 0x22] @ ''internal-link'' @ [CHR 0x22] @ ''>tours</a> Cycling.''"
    by code_simp
  moreover have "injectContextualLinks ?txt [tours_mention, capital_mention]
     \<noteq> injectContextualLinks ?txt [tours_mention]"
    unfolding one two by code_simp
  ultimately show ?thesis by (intro conjI)
qed

end
